theory Spec2Isabelle
  imports Complex_Main "HOL-Library.AList"
begin

section \<open>Data model of mogi.ts\<close>

text \<open>
  The process execution engine of \<^verbatim>\<open>mogi.ts\<close>: nodes that change an agent through a call
  of a reasoning capability, linear and conditional processes with their cursors and
  branch bindings, and the simulation that steps one process over its agents. The
  capability, \<^verbatim>\<open>JSON.parse\<close> and the clock are parameters. Asynchronous calls are
  awaited one after the other; the pauses (\<^verbatim>\<open>setTimeout\<close>) and the logging have no
  effect on the state and are left out.

  JavaScript values that occur as agent attributes and in capability replies
  (\<^verbatim>\<open>Record<string, any>\<close>). An object is an association list in insertion order
  (JavaScript lists integer-like keys first; nothing in the engine depends on the
  order); numbers carry no arithmetic in the engine and are kept as rationals.
\<close>

datatype jsval =
    JUndefined
  | JNull
  | JBool bool
  | JNum rat
  | JStr string
  | JArr "jsval list"
  | JObj "(string \<times> jsval) list"

type_synonym js_record = "(string \<times> jsval) list"

type_synonym MogiAgentID = string
type_synonym MogiProcessID = string
type_synonym MogiNodeID = string
type_synonym Schema = jsval

text \<open>Object identities: an AI service object and a process object are named by a reference.\<close>

type_synonym AIServiceRef = nat
type_synonym ProcessRef = nat

text \<open>What a \<^verbatim>\<open>throw\<close> or a rejected promise carries.\<close>

datatype js_error =
    CapabilityError string
  | SyntaxError
  | TypeError
  | NotFound MogiAgentID

text \<open>\<^verbatim>\<open>interface MogiAgentHistory\<close>; \<^verbatim>\<open>processId\<close> is never assigned by the engine.\<close>

record MogiAgentHistory =
  timestamp :: nat
  processId :: "MogiProcessID option"
  nodeId :: "MogiNodeID option"
  changes :: js_record
  reasoning :: jsval

record MogiAgentState =
  id_agent :: MogiAgentID
  attributes :: js_record
  history :: "MogiAgentHistory list"

record MogiSimulationConfig =
  id_sim :: string
  description :: string
  delayMs :: nat
  maxConcurrency :: nat
  printLogs :: bool

record MogiSimulationState =
  currentProcessId :: "MogiProcessID option"
  activeAgents :: "MogiAgentID list"
  nodeIndex :: nat
  isComplete :: bool

record MogiProcessConfig =
  retries :: nat
  timeoutMs :: nat

record MogiNodeConfig =
  aiService :: AIServiceRef
  instructions :: string
  appendMessage :: "string option"
  schema :: "Schema option"
  useChainOfThought :: bool

record MogiNode =
  id_node :: MogiNodeID
  config_node :: MogiNodeConfig

text \<open>\<^verbatim>\<open>type AIPromptResponse = string | string[]\<close>\<close>

datatype AIPromptResponse = Single string | Multiple "string list"

record AIUsageStats =
  totalCalls :: rat
  totalInputTokens :: rat
  totalOutputTokens :: rat
  estimatedCost :: rat

text \<open>
  What lies outside the engine: the reasoning capability, \<^verbatim>\<open>JSON.parse\<close> and the clock.
  \<open>prompt env node agent\<close> is the outcome of awaiting
  \<^verbatim>\<open>aiService.prompt(instructions, JSON.stringify(agent.attributes), appendMessage ?? ..., schema ?? createSchema(...))\<close>
  for this node and agent, \<open>Inl\<close> when the expression throws or the promise rejects;
  \<open>promptThinking\<close> likewise. The capability is not deterministic, so the outcome may
  depend on the whole agent, not only on its attributes.
\<close>

record Env =
  prompt :: "MogiNode \<Rightarrow> MogiAgentState \<Rightarrow> js_error + AIPromptResponse"
  promptThinking :: "MogiNode \<Rightarrow> MogiAgentState \<Rightarrow> js_error + AIPromptResponse"
  JSON_parse :: "string \<Rightarrow> js_error + jsval"
  now :: "MogiNode \<Rightarrow> MogiAgentState \<Rightarrow> nat"

section \<open>Object spread\<close>

fun show_nat :: "nat \<Rightarrow> string" where
  "show_nat n =
     (if n < 10 then [char_of (48 + n)]
      else show_nat (n div 10) @ [char_of (48 + n mod 10)])"

declare show_nat.simps [simp del]

text \<open>The own enumerable properties that \<^verbatim>\<open>{...v}\<close> copies out of a value.\<close>

fun ownProps :: "jsval \<Rightarrow> js_record" where
  "ownProps (JObj kvs) = kvs"
| "ownProps (JArr vs) = zip (map show_nat [0..<length vs]) vs"
| "ownProps (JStr s) = zip (map show_nat [0..<length s]) (map (\<lambda>c. JStr [c]) s)"
| "ownProps _ = []"

text \<open>\<^verbatim>\<open>{...a, ...b}\<close>: the keys of \<open>b\<close> overwrite in place or are appended.\<close>

definition spread :: "js_record \<Rightarrow> js_record \<Rightarrow> js_record" where
  "spread a b = foldl (\<lambda>acc (k, v). AList.update k v acc) a b"

definition getProp :: "js_record \<Rightarrow> string \<Rightarrow> jsval" where
  "getProp obj k = (case map_of obj k of None \<Rightarrow> JUndefined | Some v \<Rightarrow> v)"

section \<open>MogiNode\<close>

definition nth_opt :: "'a list \<Rightarrow> nat \<Rightarrow> 'a option" where
  "nth_opt xs i = (if i < length xs then Some (xs ! i) else None)"

definition raw_reply :: "AIPromptResponse \<Rightarrow> jsval" where
  "raw_reply response =
     (case response of Single s \<Rightarrow> JStr s | Multiple xs \<Rightarrow> JArr (map JStr xs))"

text \<open>
  \<^verbatim>\<open>const [jsonStr, reasoning] = Array.isArray(response) ? response : [response]\<close>:
  a missing element is \<^verbatim>\<open>undefined\<close>.
\<close>

definition destructure :: "AIPromptResponse \<Rightarrow> string option \<times> string option" where
  "destructure response =
     (case response of
        Single s \<Rightarrow> (Some s, None)
      | Multiple xs \<Rightarrow> (nth_opt xs 0, nth_opt xs 1))"

text \<open>\<^verbatim>\<open>JSON.parse(jsonStr)\<close>; the argument \<^verbatim>\<open>undefined\<close> is first turned into a string.\<close>

definition deserialize :: "Env \<Rightarrow> AIPromptResponse \<Rightarrow> js_error + jsval" where
  "deserialize env response =
     (case fst (destructure response) of
        None \<Rightarrow> JSON_parse env ''undefined''
      | Some jsonStr \<Rightarrow> JSON_parse env jsonStr)"

definition parseAIReponse :: "Env \<Rightarrow> AIPromptResponse \<Rightarrow> js_record" where
  "parseAIReponse env response =
     (case deserialize env response of
        Inr result \<Rightarrow>
          spread (spread [] (ownProps result))
            [(''_reasoning'',
              case snd (destructure response) of None \<Rightarrow> JUndefined | Some r \<Rightarrow> JStr r)]
      | Inl error \<Rightarrow>
          [(''_error'', JStr ''Invalid AI response''), (''_raw'', raw_reply response)])"

definition handler :: "Env \<Rightarrow> MogiNode \<Rightarrow> MogiAgentState \<Rightarrow> js_error + js_record" where
  "handler env node agent =
     (case (if useChainOfThought (config_node node)
            then promptThinking env node agent
            else prompt env node agent) of
        Inl error \<Rightarrow> Inl error
      | Inr response \<Rightarrow> Inr (parseAIReponse env response))"

definition applyChanges ::
  "Env \<Rightarrow> MogiNode \<Rightarrow> MogiAgentState \<Rightarrow> js_record \<Rightarrow> MogiAgentState" where
  "applyChanges env node agent chs =
     agent\<lparr>attributes := spread (attributes agent) chs,
           history := history agent @
             [\<lparr>timestamp = now env node agent,
               processId = None,
               nodeId = Some (id_node node),
               changes = chs,
               reasoning = getProp chs ''_reasoning''\<rparr>]\<rparr>"

text \<open>
  \<^verbatim>\<open>try { changes = await handler(agent); applyChanges(agent, changes) } catch (error) { log }\<close>.
  The result is a sum so that a caller sees whether \<open>execute\<close> itself throws; the pause
  after the \<^verbatim>\<open>try\<close> has no effect on the state.
\<close>

definition execute :: "Env \<Rightarrow> MogiNode \<Rightarrow> MogiAgentState \<Rightarrow> js_error + MogiAgentState" where
  "execute env node agent =
     (case (case handler env node agent of
              Inl error \<Rightarrow> Inl error
            | Inr chs \<Rightarrow> Inr (applyChanges env node agent chs)) of
        Inl error \<Rightarrow> Inr agent
      | Inr agent' \<Rightarrow> Inr agent')"

section \<open>MogiProcess and MogiConditionalProcess\<close>

text \<open>
  Process objects are mutable and shared: a conditional process holds references to its
  two branch processes, and a branch binding holds a reference to the bound branch. So
  the objects live in a store, from references to objects. A plain \<^verbatim>\<open>MogiProcess\<close> has
  \<open>conditional = None\<close>; an instance of \<^verbatim>\<open>MogiConditionalProcess\<close> carries the fields
  the subclass adds. \<open>branchStates\<close> is the \<^verbatim>\<open>Map\<close> from agent id to
  \<^verbatim>\<open>{ branch, completed }\<close>.
\<close>

record BranchState =
  branch :: ProcessRef
  completed :: bool

record ConditionalFields =
  condition :: "MogiAgentState \<Rightarrow> bool"
  trueBranch :: ProcessRef
  falseBranch :: ProcessRef
  branchStates :: "(MogiAgentID \<times> BranchState) list"

record MogiProcess =
  id_process :: MogiProcessID
  config_process :: MogiProcessConfig
  nodes :: "MogiNode list"
  currentNodeIndex :: nat
  conditional :: "ConditionalFields option"

type_synonym ProcessStore = "ProcessRef \<Rightarrow> MogiProcess"

definition addNode :: "ProcessRef \<Rightarrow> MogiNode \<Rightarrow> ProcessStore \<Rightarrow> ProcessStore" where
  "addNode this node h = h(this := (h this)\<lparr>nodes := nodes (h this) @ [node]\<rparr>)"

text \<open>
  \<^verbatim>\<open>resetExecution\<close> is virtual: on a conditional process it resets the cursor, clears the
  bindings and calls \<^verbatim>\<open>resetExecution\<close> of both branches, which may be conditional
  themselves. On a cyclic object graph the recursion never returns (the call stack is
  exhausted); not returning is the value \<open>None\<close>. No \<^verbatim>\<open>resetExecution\<close> assigns
  \<^verbatim>\<open>trueBranch\<close> or \<^verbatim>\<open>falseBranch\<close>, so both are read before the first call.
\<close>

partial_function (option) resetExecution :: "ProcessRef \<Rightarrow> ProcessStore \<Rightarrow> ProcessStore option"
  where
  "resetExecution this h =
     (case conditional (h this) of
        None \<Rightarrow> Some (h(this := (h this)\<lparr>currentNodeIndex := 0\<rparr>))
      | Some c \<Rightarrow>
          Option.bind
            (resetExecution (trueBranch c)
               (h(this := (h this)\<lparr>currentNodeIndex := 0,
                                   conditional := Some (c\<lparr>branchStates := []\<rparr>)\<rparr>)))
            (\<lambda>h'. resetExecution (falseBranch c) h'))"

definition updateBranches ::
  "ProcessRef \<Rightarrow> ProcessRef option \<Rightarrow> ProcessRef option \<Rightarrow> ProcessStore \<Rightarrow> ProcessStore" where
  "updateBranches this tb fb h =
     (case conditional (h this) of
        None \<Rightarrow> h
      | Some c \<Rightarrow>
          h(this := (h this)\<lparr>conditional := Some (c
              \<lparr>trueBranch := (case tb of None \<Rightarrow> trueBranch c | Some b \<Rightarrow> b),
               falseBranch := (case fb of None \<Rightarrow> falseBranch c | Some b \<Rightarrow> b)\<rparr>)\<rparr>))"

definition getActiveBranch :: "ProcessRef \<Rightarrow> MogiAgentID \<Rightarrow> ProcessStore \<Rightarrow> ProcessRef option" where
  "getActiveBranch this agentId h =
     (case conditional (h this) of
        None \<Rightarrow> None
      | Some c \<Rightarrow> map_option branch (map_of (branchStates c) agentId))"

text \<open>
  \<^verbatim>\<open>getAIServices\<close> is virtual as well and descends into both branches of a conditional
  process.
\<close>

partial_function (option) getAIServices :: "ProcessRef \<Rightarrow> ProcessStore \<Rightarrow> AIServiceRef list option"
  where
  "getAIServices this h =
     (case conditional (h this) of
        None \<Rightarrow> Some (map (\<lambda>n. aiService (config_node n)) (nodes (h this)))
      | Some c \<Rightarrow>
          Option.bind (getAIServices (trueBranch c) h) (\<lambda>ts.
          Option.bind (getAIServices (falseBranch c) h) (\<lambda>fs.
            Some (map (\<lambda>n. aiService (config_node n)) (nodes (h this)) @ ts @ fs))))"

text \<open>
  \<^verbatim>\<open>executeAgentStep\<close> is not overridden: on any process object it runs the node at the
  object's own cursor for the one agent passed and advances that cursor.
\<close>

definition executeAgentStep ::
  "Env \<Rightarrow> ProcessRef \<Rightarrow> MogiAgentState \<Rightarrow> ProcessStore
     \<Rightarrow> js_error + (bool \<times> MogiAgentState \<times> ProcessStore)" where
  "executeAgentStep env this agent h =
     (if currentNodeIndex (h this) < length (nodes (h this)) then
        (case execute env (nodes (h this) ! currentNodeIndex (h this)) agent of
           Inl error \<Rightarrow> Inl error
         | Inr agent' \<Rightarrow>
             Inr (True, agent',
                  h(this := (h this)\<lparr>currentNodeIndex := currentNodeIndex (h this) + 1\<rparr>)))
      else Inr (False, agent, h))"

text \<open>Lines 398 to 403: bind the agent to a branch unless it is bound already.\<close>

definition initBranchState ::
  "ProcessRef \<Rightarrow> ConditionalFields \<Rightarrow> MogiAgentState \<Rightarrow> ProcessStore \<Rightarrow> ProcessStore option" where
  "initBranchState this c agent h =
     (if map_of (branchStates c) (id_agent agent) = None then
        (let br = (if condition c agent then trueBranch c else falseBranch c) in
         case resetExecution br h of
           None \<Rightarrow> None
         | Some h1 \<Rightarrow>
             (case conditional (h1 this) of
                None \<Rightarrow> Some h1
              | Some c1 \<Rightarrow>
                  Some (h1(this := (h1 this)\<lparr>conditional := Some (c1
                     \<lparr>branchStates :=
                        AList.update (id_agent agent) \<lparr>branch = br, completed = False\<rparr>
                          (branchStates c1)\<rparr>)\<rparr>))))
      else Some h)"

text \<open>Lines 405 to 410: one step of the agent through its bound branch.\<close>

definition stepBranch ::
  "Env \<Rightarrow> ProcessRef \<Rightarrow> MogiAgentState \<Rightarrow> ProcessStore \<Rightarrow> bool
     \<Rightarrow> js_error + (MogiAgentState \<times> ProcessStore \<times> bool)" where
  "stepBranch env this agent h hasMoreSteps =
     (case conditional (h this) of
        None \<Rightarrow> Inl TypeError
      | Some c \<Rightarrow>
          (case map_of (branchStates c) (id_agent agent) of
             None \<Rightarrow> Inl TypeError
           | Some branchState \<Rightarrow>
               if \<not> completed branchState then
                 (case executeAgentStep env (branch branchState) agent h of
                    Inl error \<Rightarrow> Inl error
                  | Inr (branchHasSteps, agent', h') \<Rightarrow>
                      (case conditional (h' this) of
                         None \<Rightarrow> Inl TypeError
                       | Some c' \<Rightarrow>
                           Inr (agent',
                                h'(this := (h' this)\<lparr>conditional := Some (c'
                                   \<lparr>branchStates :=
                                      AList.update (id_agent agent)
                                        (branchState\<lparr>completed := \<not> branchHasSteps\<rparr>)
                                        (branchStates c')\<rparr>)\<rparr>),
                                hasMoreSteps \<or> branchHasSteps)))
               else Inr (agent, h, hasMoreSteps)))"

text \<open>
  The \<^verbatim>\<open>for (const agent of agents)\<close> loop of \<^verbatim>\<open>executeConditionalStep\<close>. The agents are
  distinct objects, mutated in place; the loop returns them as they are after the step.
\<close>

fun conditionalLoop ::
  "Env \<Rightarrow> ProcessRef \<Rightarrow> MogiAgentState list \<Rightarrow> ProcessStore \<Rightarrow> bool
     \<Rightarrow> (js_error + (MogiAgentState list \<times> ProcessStore \<times> bool)) option" where
  "conditionalLoop env this [] h hasMoreSteps = Some (Inr ([], h, hasMoreSteps))"
| "conditionalLoop env this (agent # rest) h hasMoreSteps =
     (if currentNodeIndex (h this) < length (nodes (h this)) then
        (case execute env (nodes (h this) ! currentNodeIndex (h this)) agent of
           Inl error \<Rightarrow> Some (Inl error)
         | Inr agent' \<Rightarrow>
             (case conditionalLoop env this rest h True of
                None \<Rightarrow> None
              | Some (Inl error) \<Rightarrow> Some (Inl error)
              | Some (Inr (rest', h', hasMore)) \<Rightarrow> Some (Inr (agent' # rest', h', hasMore))))
      else
        (case conditional (h this) of
           None \<Rightarrow> Some (Inl TypeError)
         | Some c \<Rightarrow>
             (case initBranchState this c agent h of
                None \<Rightarrow> None
              | Some h1 \<Rightarrow>
                  (case stepBranch env this agent h1 hasMoreSteps of
                     Inl error \<Rightarrow> Some (Inl error)
                   | Inr (agent', h2, hasMore) \<Rightarrow>
                       (case conditionalLoop env this rest h2 hasMore of
                          None \<Rightarrow> None
                        | Some (Inl error) \<Rightarrow> Some (Inl error)
                        | Some (Inr (rest', h', hasMore')) \<Rightarrow>
                            Some (Inr (agent' # rest', h', hasMore')))))))"

definition executeConditionalStep ::
  "Env \<Rightarrow> ProcessRef \<Rightarrow> MogiAgentState list \<Rightarrow> ProcessStore
     \<Rightarrow> (js_error + (bool \<times> MogiAgentState list \<times> ProcessStore)) option" where
  "executeConditionalStep env this ags h =
     (case conditionalLoop env this ags h False of
        None \<Rightarrow> None
      | Some (Inl error) \<Rightarrow> Some (Inl error)
      | Some (Inr (ags', h', hasMoreSteps)) \<Rightarrow>
          if currentNodeIndex (h' this) < length (nodes (h' this)) then
            Some (Inr (True, ags',
                       h'(this := (h' this)\<lparr>currentNodeIndex := currentNodeIndex (h' this) + 1\<rparr>)))
          else Some (Inr (hasMoreSteps, ags', h')))"

section \<open>MogiSimulation\<close>

text \<open>
  \<open>aiServices\<close> is the \<^verbatim>\<open>Set\<close> of tracked service objects in insertion order, \<open>agents\<close>
  the \<^verbatim>\<open>Map\<close> from agent id to agent in insertion order, \<open>processes\<close> the array of
  process objects pushed so far.
\<close>

record MogiSimulation =
  aiServices :: "AIServiceRef list"
  globalUsage :: AIUsageStats
  executionQueue :: "(MogiProcessID \<times> MogiAgentID \<times> nat) list"
  currentState :: MogiSimulationState
  agents :: "(MogiAgentID \<times> MogiAgentState) list"
  processes :: "ProcessRef list"
  config_sim :: MogiSimulationConfig

record World =
  store :: ProcessStore
  sim :: MogiSimulation

definition zeroUsage :: AIUsageStats where
  "zeroUsage = \<lparr>totalCalls = 0, totalInputTokens = 0, totalOutputTokens = 0, estimatedCost = 0\<rparr>"

text \<open>The field initialisers and the constructor of \<^verbatim>\<open>MogiSimulation\<close>.\<close>

definition newSimulation :: "MogiSimulationConfig \<Rightarrow> MogiSimulation" where
  "newSimulation cfg =
     \<lparr>aiServices = [],
      globalUsage = zeroUsage,
      executionQueue = [],
      currentState =
        \<lparr>currentProcessId = None, activeAgents = [], nodeIndex = 0, isComplete = True\<rparr>,
      agents = [],
      processes = [],
      config_sim = cfg\<rparr>"

definition addAgent :: "js_record \<Rightarrow> MogiAgentID \<Rightarrow> MogiSimulation \<Rightarrow> MogiSimulation" where
  "addAgent attrs agentId s =
     s\<lparr>agents := AList.update agentId
          \<lparr>id_agent = agentId, attributes = attrs, history = []\<rparr> (agents s)\<rparr>"

definition getAgentState :: "MogiSimulation \<Rightarrow> MogiAgentID \<Rightarrow> js_error + MogiAgentState" where
  "getAgentState s agentId =
     (case map_of (agents s) agentId of
        None \<Rightarrow> Inl (NotFound agentId)
      | Some agent \<Rightarrow> Inr agent)"

definition getAllAgents :: "MogiSimulation \<Rightarrow> MogiAgentState list" where
  "getAllAgents s = map snd (agents s)"

definition getSimulationState :: "MogiSimulation \<Rightarrow> MogiSimulationState" where
  "getSimulationState s = currentState s"

definition trackAIService :: "AIServiceRef list \<Rightarrow> AIServiceRef \<Rightarrow> AIServiceRef list" where
  "trackAIService tracked service =
     (if service \<notin> set tracked then tracked @ [service] else tracked)"

text \<open>
  \<^verbatim>\<open>initializeProcess\<close> has no statement that writes to a process object; the store is
  passed through. It does not return when \<^verbatim>\<open>getAIServices\<close> does not.
\<close>

definition initializeProcess :: "ProcessRef \<Rightarrow> World \<Rightarrow> World option" where
  "initializeProcess process w =
     (let s = sim w;
          pid = id_process (store w process);
          st = \<lparr>currentProcessId = Some pid,
                activeAgents = map fst (agents s),
                nodeIndex = 0,
                isComplete = False\<rparr>
      in case getAIServices process (store w) of
           None \<Rightarrow> None
         | Some services \<Rightarrow>
             Some (w\<lparr>sim := s
               \<lparr>currentState := st,
                aiServices := foldl trackAIService (aiServices s) services,
                processes := processes s @ [process],
                executionQueue := map (\<lambda>agentId. (pid, agentId, 0)) (activeAgents st)\<rparr>\<rparr>))"

text \<open>\<^verbatim>\<open>this.currentState.activeAgents.map((id) => this.getAgentState(id))\<close>\<close>

fun lookupAgents :: "MogiSimulation \<Rightarrow> MogiAgentID list \<Rightarrow> js_error + MogiAgentState list" where
  "lookupAgents s [] = Inr []"
| "lookupAgents s (agentId # ids) =
     (case getAgentState s agentId of
        Inl error \<Rightarrow> Inl error
      | Inr agent \<Rightarrow>
          (case lookupAgents s ids of
             Inl error \<Rightarrow> Inl error
           | Inr ags \<Rightarrow> Inr (agent # ags)))"

text \<open>
  \<^verbatim>\<open>agents.map((agent) => currentNode.execute(agent, delayMs))\<close> under \<^verbatim>\<open>Promise.all\<close>:
  with \<^verbatim>\<open>currentNode\<close> undefined the callback throws a \<^verbatim>\<open>TypeError\<close> at the first agent.
  The executions run concurrently, each on its own agent object, so the order in which
  they finish does not matter.
\<close>

fun executeAll ::
  "Env \<Rightarrow> MogiNode option \<Rightarrow> MogiAgentState list \<Rightarrow> js_error + MogiAgentState list" where
  "executeAll env currentNode [] = Inr []"
| "executeAll env currentNode (agent # rest) =
     (case currentNode of
        None \<Rightarrow> Inl TypeError
      | Some node \<Rightarrow>
          (case execute env node agent of
             Inl error \<Rightarrow> Inl error
           | Inr agent' \<Rightarrow>
               (case executeAll env currentNode rest of
                  Inl error \<Rightarrow> Inl error
                | Inr rest' \<Rightarrow> Inr (agent' # rest'))))"

text \<open>
  The agents of a step are the objects held by the \<^verbatim>\<open>agents\<close> map under the active
  ids, mutated in place: each is stored back under the id it was looked up with.
\<close>

definition storeAgents ::
  "MogiAgentID list \<Rightarrow> MogiAgentState list \<Rightarrow> MogiSimulation \<Rightarrow> MogiSimulation" where
  "storeAgents ids ags s =
     s\<lparr>agents := foldl (\<lambda>m (agentId, agent). AList.update agentId agent m) (agents s) (zip ids ags)\<rparr>"

definition isConditional :: "MogiProcess \<Rightarrow> bool" where
  "isConditional p = (conditional p \<noteq> None)"

definition executeStep :: "Env \<Rightarrow> World \<Rightarrow> (js_error + (bool \<times> World)) option" where
  "executeStep env w =
     (let s = sim w; h = store w in
      if isComplete (currentState s) then Some (Inr (False, w))
      else
        (case find (\<lambda>p. Some (id_process (h p)) = currentProcessId (currentState s))
                (processes s) of
           None \<Rightarrow>
             Some (Inr (False, w\<lparr>sim := s\<lparr>currentState := (currentState s)\<lparr>isComplete := True\<rparr>\<rparr>\<rparr>))
         | Some currentProcess \<Rightarrow>
             if isConditional (h currentProcess) then
               (case lookupAgents s (activeAgents (currentState s)) of
                  Inl error \<Rightarrow> Some (Inl error)
                | Inr ags \<Rightarrow>
                    (case executeConditionalStep env currentProcess ags h of
                       None \<Rightarrow> None
                     | Some (Inl error) \<Rightarrow> Some (Inl error)
                     | Some (Inr (hasMore, ags', h')) \<Rightarrow>
                         Some (Inr (hasMore, \<lparr>store = h', sim = storeAgents (activeAgents (currentState s)) ags' s\<rparr>))))
             else
               (let currentNode =
                      nth_opt (nodes (h currentProcess)) (nodeIndex (currentState s))
                in case lookupAgents s (activeAgents (currentState s)) of
                     Inl error \<Rightarrow> Some (Inl error)
                   | Inr ags \<Rightarrow>
                       (case executeAll env currentNode ags of
                          Inl error \<Rightarrow> Some (Inl error)
                        | Inr ags' \<Rightarrow>
                            (let s1 = storeAgents (activeAgents (currentState s)) ags' s;
                                 idx = nodeIndex (currentState s1) + 1;
                                 st = (currentState s1)
                                        \<lparr>nodeIndex := idx,
                                         isComplete :=
                                           (if idx \<ge> length (nodes (h currentProcess)) then True
                                            else isComplete (currentState s1))\<rparr>
                             in Some (Inr (\<not> isComplete st,
                                           \<lparr>store = h, sim = s1\<lparr>currentState := st\<rparr>\<rparr>)))))))"

text \<open>
  The \<^verbatim>\<open>while (await this.executeStep())\<close> loop of \<^verbatim>\<open>runProcess\<close>; it returns the number
  of calls of \<^verbatim>\<open>executeStep\<close> it made together with the final state.
\<close>

partial_function (option) runLoop :: "Env \<Rightarrow> nat \<Rightarrow> World \<Rightarrow> (js_error + (nat \<times> World)) option"
  where
  "runLoop env k w =
     (case executeStep env w of
        None \<Rightarrow> None
      | Some (Inl error) \<Rightarrow> Some (Inl error)
      | Some (Inr (hasMore, w')) \<Rightarrow>
          if hasMore then runLoop env (k + 1) w' else Some (Inr (k + 1, w')))"

definition runProcess :: "Env \<Rightarrow> ProcessRef \<Rightarrow> World \<Rightarrow> (js_error + (nat \<times> World)) option" where
  "runProcess env process w =
     (case initializeProcess process w of
        None \<Rightarrow> None
      | Some w0 \<Rightarrow> runLoop env 0 w0)"

section \<open>Usage statistics\<close>







section \<open>Runs\<close>


text \<open>Successive calls of \<^verbatim>\<open>executeStep\<close> that return, whatever they return.\<close>

inductive stepsTo :: "Env \<Rightarrow> World \<Rightarrow> World \<Rightarrow> bool" for env w where
  refl: "stepsTo env w w"
| step: "stepsTo env w w1 \<Longrightarrow> executeStep env w1 = Some (Inr (hasMore, w2)) \<Longrightarrow> stepsTo env w w2"

section \<open>A concrete scenario\<close>

text \<open>
  The scenario of the specification: a conditional process (object 0) with one shared
  node, a true branch of two nodes (object 1) and a false branch of one node (object 2),
  and the agents A (height 160) and B (height 100) under the predicate
  \<open>height \<in> [150, 200]\<close>. Object 3 is a linear process of two nodes, every other object
  a process without nodes.
\<close>

definition dq :: char where
  "dq = CHR 0x22"

definition replyHeight :: string where
  "replyHeight = ''{'' @ [dq] @ ''height'' @ [dq] @ '':100}''"

definition demoParse :: "string \<Rightarrow> js_error + jsval" where
  "demoParse str =
     (if str = ''{}'' then Inr (JObj [])
      else if str = replyHeight then Inr (JObj [(''height'', JNum 100)])
      else Inl SyntaxError)"

text \<open>
  A capability that answers \<^verbatim>\<open>{}\<close>, except that the node \<open>shrink\<close> sets the height to
  100, the node \<open>garbled\<close> answers with text that is no JSON, and the node \<open>flaky\<close> fails
  for agent B.
\<close>

definition demoPrompt :: "MogiNode \<Rightarrow> MogiAgentState \<Rightarrow> js_error + AIPromptResponse" where
  "demoPrompt node agent =
     (if id_node node = ''flaky'' \<and> id_agent agent = ''B'' then Inl (CapabilityError ''network'')
      else if id_node node = ''garbled'' then Inr (Single ''oops'')
      else if id_node node = ''shrink'' then Inr (Single replyHeight)
      else Inr (Single ''{}''))"

definition demoEnv :: Env where
  "demoEnv =
     \<lparr>prompt = demoPrompt,
      promptThinking = (\<lambda>node agent. Inr (Multiple [''{}'', ''because''])),
      JSON_parse = demoParse,
      now = (\<lambda>node agent. length (history agent))\<rparr>"

definition heightIn :: "rat \<Rightarrow> rat \<Rightarrow> MogiAgentState \<Rightarrow> bool" where
  "heightIn lo hi agent =
     (case map_of (attributes agent) ''height'' of
        Some (JNum height) \<Rightarrow> lo \<le> height \<and> height \<le> hi
      | _ \<Rightarrow> False)"

definition demoNode :: "MogiNodeID \<Rightarrow> AIServiceRef \<Rightarrow> MogiNode" where
  "demoNode nid service =
     \<lparr>id_node = nid,
      config_node = \<lparr>aiService = service, instructions = ''update the agent'',
                     appendMessage = None, schema = None, useChainOfThought = False\<rparr>\<rparr>"

definition demoProcess :: "MogiProcessID \<Rightarrow> MogiNode list \<Rightarrow> MogiProcess" where
  "demoProcess pid ns =
     \<lparr>id_process = pid, config_process = \<lparr>retries = 3, timeoutMs = 10000\<rparr>,
      nodes = ns, currentNodeIndex = 0, conditional = None\<rparr>"

definition demoStore :: ProcessStore where
  "demoStore =
     (\<lambda>r. demoProcess ''empty'' [])
     (0 := (demoProcess ''height-check-flow'' [demoNode ''ticketBox'' 0])
             \<lparr>conditional := Some \<lparr>condition = heightIn 150 200, trueBranch = 1,
                                    falseBranch = 2, branchStates = []\<rparr>\<rparr>,
      1 := demoProcess ''full-ride'' [demoNode ''rideOperator'' 0, demoNode ''shrink'' 1],
      2 := demoProcess ''short-exit'' [demoNode ''exitStaff'' 1],
      3 := demoProcess ''linear'' [demoNode ''flaky'' 0, demoNode ''garbled'' 2])"

definition demoConfig :: MogiSimulationConfig where
  "demoConfig =
     \<lparr>id_sim = ''sim'', description = ''Unnamed Simulation'', delayMs = 1500,
      maxConcurrency = 5, printLogs = False\<rparr>"

definition demoSim :: MogiSimulation where
  "demoSim =
     addAgent [(''height'', JNum 100)] ''B''
       (addAgent [(''height'', JNum 160)] ''A'' (newSimulation demoConfig))"

definition demoWorld :: World where
  "demoWorld = \<lparr>store = demoStore, sim = demoSim\<rparr>"


text \<open>A run state that names a process no pushed process object carries.\<close>

definition ghostWorld :: World where
  "ghostWorld =
     demoWorld\<lparr>sim := demoSim\<lparr>currentState :=
       \<lparr>currentProcessId = Some ''ghost'', activeAgents = [''A'', ''B''],
        nodeIndex = 0, isComplete = False\<rparr>\<rparr>\<rparr>"

text \<open>The two agents as \<^verbatim>\<open>addAgent\<close> creates them.\<close>

definition agentA :: MogiAgentState where
  "agentA = \<lparr>id_agent = ''A'', attributes = [(''height'', JNum 160)], history = []\<rparr>"

definition agentB :: MogiAgentState where
  "agentB = \<lparr>id_agent = ''B'', attributes = [(''height'', JNum 100)], history = []\<rparr>"

text \<open>The state after \<^verbatim>\<open>initializeProcess\<close> of the linear process, object 3.\<close>

definition linearWorld :: World where
  "linearWorld =
     demoWorld\<lparr>sim := demoSim
       \<lparr>currentState :=
          \<lparr>currentProcessId = Some ''linear'', activeAgents = [''A'', ''B''],
           nodeIndex = 0, isComplete = False\<rparr>,
        aiServices := [0, 2],
        processes := [3],
        executionQueue := [(''linear'', ''A'', 0), (''linear'', ''B'', 0)]\<rparr>\<rparr>"

text \<open>The state after \<^verbatim>\<open>initializeProcess\<close> of the conditional process, object 0.\<close>

definition condWorld :: World where
  "condWorld =
     demoWorld\<lparr>sim := demoSim
       \<lparr>currentState :=
          \<lparr>currentProcessId = Some ''height-check-flow'', activeAgents = [''A'', ''B''],
           nodeIndex = 0, isComplete = False\<rparr>,
        aiServices := [0, 1],
        processes := [0],
        executionQueue := [(''height-check-flow'', ''A'', 0), (''height-check-flow'', ''B'', 0)]\<rparr>\<rparr>"

text \<open>
  A third agent C of height 170, for whom the predicate holds as it does for A; the
  store in which A and C are both bound to the true branch; and the store in which A
  is bound to the true branch and has taken one step through it while C is not bound
  yet.
\<close>

definition agentC :: MogiAgentState where
  "agentC = \<lparr>id_agent = ''C'', attributes = [(''height'', JNum 170)], history = []\<rparr>"

definition boundStore :: ProcessStore where
  "boundStore =
     demoStore(0 := (demoStore 0)\<lparr>currentNodeIndex := 1,
       conditional := Some \<lparr>condition = heightIn 150 200, trueBranch = 1, falseBranch = 2,
         branchStates = [(''A'', \<lparr>branch = 1, completed = False\<rparr>),
                         (''C'', \<lparr>branch = 1, completed = False\<rparr>)]\<rparr>\<rparr>)"

definition halfStore :: ProcessStore where
  "halfStore =
     demoStore(0 := (demoStore 0)\<lparr>currentNodeIndex := 1,
       conditional := Some \<lparr>condition = heightIn 150 200, trueBranch = 1, falseBranch = 2,
         branchStates = [(''A'', \<lparr>branch = 1, completed = False\<rparr>)]\<rparr>\<rparr>,
       1 := (demoStore 1)\<lparr>currentNodeIndex := 1\<rparr>)"

section \<open>Auxiliary notions for the statements\<close>

text \<open>What \<^verbatim>\<open>execute\<close> leaves of the agent: unchanged when the handler throws.\<close>

definition executed :: "Env \<Rightarrow> MogiNode \<Rightarrow> MogiAgentState \<Rightarrow> MogiAgentState" where
  "executed env node agent =
     (case handler env node agent of
        Inl e \<Rightarrow> agent
      | Inr chs \<Rightarrow> applyChanges env node agent chs)"

text \<open>
  Two stores have the same shape when every object has kept its id, its configuration,
  its nodes and, for a conditional process, its predicate and its two branch references;
  cursors and bindings may differ.
\<close>

definition sameShape :: "ProcessStore \<Rightarrow> ProcessStore \<Rightarrow> bool" where
  "sameShape h h' =
     (\<forall>r. id_process (h' r) = id_process (h r) \<and>
          config_process (h' r) = config_process (h r) \<and>
          nodes (h' r) = nodes (h r) \<and>
          map_option (\<lambda>c. (condition c, trueBranch c, falseBranch c)) (conditional (h' r)) =
          map_option (\<lambda>c. (condition c, trueBranch c, falseBranch c)) (conditional (h r)))"

text \<open>The references from a conditional process to its two branches.\<close>

definition branchEdge :: "ProcessStore \<Rightarrow> (ProcessRef \<times> ProcessRef) set" where
  "branchEdge h =
     {(r, b). \<exists>c. conditional (h r) = Some c \<and> (b = trueBranch c \<or> b = falseBranch c)}"

text \<open>The store in which the conditional process \<open>this\<close> carries the predicate \<open>q\<close> instead.\<close>

definition setCondition ::
  "(MogiAgentState \<Rightarrow> bool) \<Rightarrow> ProcessRef \<Rightarrow> ProcessStore \<Rightarrow> ProcessStore" where
  "setCondition q this h =
     h(this := (h this)\<lparr>conditional :=
         map_option (\<lambda>c. c\<lparr>condition := q\<rparr>) (conditional (h this))\<rparr>)"

section \<open>Node execution\<close>

lemma execute_Inr:
  "execute env node agent =
     Inr (case handler env node agent of
            Inl e \<Rightarrow> agent
          | Inr chs \<Rightarrow> applyChanges env node agent chs)"
  by (simp add: execute_def split: sum.splits)

lemma map_of_spread: "map_of (spread a b) = map_of a ++ map_of (rev b)"
  unfolding spread_def
  by (induction b arbitrary: a)
     (auto simp: update_conv' map_add_def fun_eq_iff split: option.splits)

lemma execute_executed: "execute env node agent = Inr (executed env node agent)"
  by (simp add: execute_Inr executed_def)

lemma executeAll_map:
  "executeAll env (Some node) ags = Inr (map (executed env node) ags)"
  by (induction ags) (simp_all add: execute_executed)

section \<open>The agent map\<close>

lemma lookupAgents_Inr:
  "lookupAgents s ids = Inr ags \<longleftrightarrow> map (map_of (agents s)) ids = map Some ags"
proof (induction ids arbitrary: ags)
  case Nil
  then show ?case by auto
next
  case (Cons k ids)
  show ?case
  proof (cases "map_of (agents s) k")
    case None
    then show ?thesis by (auto simp: getAgentState_def)
  next
    case (Some a)
    show ?thesis
    proof (cases "lookupAgents s ids")
      case (Inl e)
      then have "\<And>zs. map (map_of (agents s)) ids \<noteq> map Some zs"
        using Cons.IH by simp
      then show ?thesis using Some Inl
        by (cases ags) (auto simp: getAgentState_def)
    next
      case (Inr zs)
      then have "map (map_of (agents s)) ids = map Some zs"
        using Cons.IH by simp
      then show ?thesis using Some Inr
        by (cases ags) (auto simp: getAgentState_def inj_Some [THEN inj_map_eq_map])
    qed
  qed
qed

lemma lookupAgents_length: "lookupAgents s ids = Inr ags \<Longrightarrow> length ags = length ids"
  using lookupAgents_Inr [of s ids ags] by (auto dest: map_eq_imp_length_eq)

lemma map_of_foldl_update:
  "map_of (foldl (\<lambda>m (k, v). AList.update k v m) m kvs) = map_of m ++ map_of (rev kvs)"
  by (induction kvs arbitrary: m)
     (auto simp: update_conv' map_add_def fun_eq_iff split: option.splits)

lemma map_of_storeAgents:
  assumes "distinct ids" "length ags = length ids" "i < length ids"
  shows "map_of (agents (storeAgents ids ags s)) (ids ! i) = Some (ags ! i)"
proof -
  have d: "distinct (map fst (rev (zip ids ags)))"
    using assms(1,2) by (simp add: rev_map [symmetric])
  have "(ids ! i, ags ! i) \<in> set (rev (zip ids ags))"
    using assms by (auto simp: in_set_zip)
  then have "map_of (rev (zip ids ags)) (ids ! i) = Some (ags ! i)"
    using d by (rule_tac map_of_is_SomeI)
  then show ?thesis by (simp add: storeAgents_def map_of_foldl_update map_add_def)
qed

section \<open>One round of a linear process\<close>

lemma executeStep_linear:
  assumes "\<not> isComplete (currentState (sim w))"
    and "find (\<lambda>p. Some (id_process (store w p)) = currentProcessId (currentState (sim w)))
           (processes (sim w)) = Some p"
    and "conditional (store w p) = None"
    and "nth_opt (nodes (store w p)) (nodeIndex (currentState (sim w))) = Some node"
    and "lookupAgents (sim w) (activeAgents (currentState (sim w))) = Inr ags"
  shows "executeStep env w =
    Some (Inr (nodeIndex (currentState (sim w)) + 1 < length (nodes (store w p)),
      \<lparr>store = store w,
       sim = (storeAgents (activeAgents (currentState (sim w)))
                (map (executed env node) ags) (sim w))
         \<lparr>currentState := (currentState (sim w))
            \<lparr>nodeIndex := nodeIndex (currentState (sim w)) + 1,
             isComplete :=
               length (nodes (store w p)) \<le> nodeIndex (currentState (sim w)) + 1\<rparr>\<rparr>\<rparr>))"
  using assms
  by (auto simp add: executeStep_def Let_def isConditional_def executeAll_map storeAgents_def
      not_less)

lemma init_linear: "initializeProcess 3 demoWorld = Some linearWorld"
  by (simp add: initializeProcess_def getAIServices.simps demoWorld_def demoStore_def
      linearWorld_def demoProcess_def demoNode_def demoSim_def addAgent_def newSimulation_def
      Let_def trackAIService_def)

lemma init_cond: "initializeProcess 0 demoWorld = Some condWorld"
  by (simp add: initializeProcess_def getAIServices.simps demoWorld_def demoStore_def
      condWorld_def demoProcess_def demoNode_def demoSim_def addAgent_def newSimulation_def
      Let_def trackAIService_def)

section \<open>Stepping a run that has nothing to do\<close>

text \<open>
  C8. \<^verbatim>\<open>executeStep\<close> on a run that is marked complete returns false and leaves everything
  as it is; on a run that is not marked complete while no pushed process carries the
  current process id, it returns false and marks the run complete. Neither raises an
  error.
\<close>

theorem executeStep_invalid_state:
  "(isComplete (currentState (sim w)) \<longrightarrow> executeStep env w = Some (Inr (False, w))) \<and>
   (\<not> isComplete (currentState (sim w)) \<and>
    find (\<lambda>p. Some (id_process (store w p)) = currentProcessId (currentState (sim w)))
      (processes (sim w)) = None \<longrightarrow>
    executeStep env w =
      Some (Inr (False,
        w\<lparr>sim := (sim w)\<lparr>currentState := (currentState (sim w))\<lparr>isComplete := True\<rparr>\<rparr>\<rparr>)))"
  by (simp add: executeStep_def Let_def)

theorem executeStep_invalid_state_witness:
  "isComplete (currentState (sim demoWorld)) \<and>
   executeStep demoEnv demoWorld = Some (Inr (False, demoWorld)) \<and>
   \<not> isComplete (currentState (sim ghostWorld)) \<and>
   find (\<lambda>p. Some (id_process (store ghostWorld p)) =
               currentProcessId (currentState (sim ghostWorld)))
     (processes (sim ghostWorld)) = None \<and>
   executeStep demoEnv ghostWorld =
     Some (Inr (False,
       ghostWorld\<lparr>sim := (sim ghostWorld)
         \<lparr>currentState := (currentState (sim ghostWorld))\<lparr>isComplete := True\<rparr>\<rparr>\<rparr>))"
  using executeStep_invalid_state [of demoWorld demoEnv]
    executeStep_invalid_state [of ghostWorld demoEnv]
  by (simp add: demoWorld_def ghostWorld_def demoSim_def addAgent_def newSimulation_def)

section \<open>A capability call that fails\<close>

text \<open>
  C4. Whatever the capability does, \<^verbatim>\<open>execute\<close> returns normally. When the handler (the
  capability call and the handling of its reply) throws, the agent is returned exactly
  as it was. In one round of a linear process, every active agent is left as its own
  execution of the node leaves it: an agent whose call fails is unchanged, and an agent
  whose call succeeds has the change applied and one history entry appended, whatever
  happened to the others; the round reports more work from the cursor alone.
\<close>

theorem capability_failure_skipped:
  "(\<exists>agent'. execute env node agent = Inr agent') \<and>
   (handler env node agent = Inl err \<longrightarrow> execute env node agent = Inr agent) \<and>
   (\<not> isComplete (currentState (sim w)) \<and>
    find (\<lambda>p. Some (id_process (store w p)) = currentProcessId (currentState (sim w)))
      (processes (sim w)) = Some p \<and>
    conditional (store w p) = None \<and>
    nth_opt (nodes (store w p)) (nodeIndex (currentState (sim w))) = Some node \<and>
    lookupAgents (sim w) (activeAgents (currentState (sim w))) = Inr ags \<and>
    distinct (activeAgents (currentState (sim w))) \<longrightarrow>
    (\<exists>w'. executeStep env w =
             Some (Inr (nodeIndex (currentState (sim w)) + 1 < length (nodes (store w p)), w')) \<and>
       (\<forall>i < length ags.
          map_of (agents (sim w')) (activeAgents (currentState (sim w)) ! i) =
            Some (case handler env node (ags ! i) of
                    Inl e \<Rightarrow> ags ! i
                  | Inr chs \<Rightarrow> applyChanges env node (ags ! i) chs))))"
proof (intro conjI impI)
  show "\<exists>agent'. execute env node agent = Inr agent'"
    by (simp add: execute_Inr)
  show "execute env node agent = Inr agent" if "handler env node agent = Inl err"
    using that by (simp add: execute_Inr)
next
  let ?ids = "activeAgents (currentState (sim w))"
  assume a: "\<not> isComplete (currentState (sim w)) \<and>
    find (\<lambda>p. Some (id_process (store w p)) = currentProcessId (currentState (sim w)))
      (processes (sim w)) = Some p \<and>
    conditional (store w p) = None \<and>
    nth_opt (nodes (store w p)) (nodeIndex (currentState (sim w))) = Some node \<and>
    lookupAgents (sim w) ?ids = Inr ags \<and> distinct ?ids"
  then have len: "length ags = length ?ids" by (auto dest: lookupAgents_length)
  from a have step: "executeStep env w =
    Some (Inr (nodeIndex (currentState (sim w)) + 1 < length (nodes (store w p)),
      \<lparr>store = store w,
       sim = (storeAgents ?ids (map (executed env node) ags) (sim w))
         \<lparr>currentState := (currentState (sim w))
            \<lparr>nodeIndex := nodeIndex (currentState (sim w)) + 1,
             isComplete :=
               length (nodes (store w p)) \<le> nodeIndex (currentState (sim w)) + 1\<rparr>\<rparr>\<rparr>))"
    by (intro executeStep_linear) simp_all
  have "map_of (agents (storeAgents ?ids (map (executed env node) ags) (sim w))) (?ids ! i) =
          Some (executed env node (ags ! i))" if "i < length ags" for i
    using map_of_storeAgents [of ?ids "map (executed env node) ags" i "sim w"] a len that
    by simp
  then show "\<exists>w'. executeStep env w =
             Some (Inr (nodeIndex (currentState (sim w)) + 1 < length (nodes (store w p)), w')) \<and>
       (\<forall>i < length ags.
          map_of (agents (sim w')) (?ids ! i) =
            Some (case handler env node (ags ! i) of
                    Inl e \<Rightarrow> ags ! i
                  | Inr chs \<Rightarrow> applyChanges env node (ags ! i) chs))"
    unfolding step by (simp add: executed_def)
qed

theorem capability_failure_skipped_witness:
  "initializeProcess 3 demoWorld = Some linearWorld \<and>
   handler demoEnv (demoNode ''flaky'' 0) agentB = Inl (CapabilityError ''network'') \<and>
   execute demoEnv (demoNode ''flaky'' 0) agentB = Inr agentB \<and>
   \<not> isComplete (currentState (sim linearWorld)) \<and>
   find (\<lambda>p. Some (id_process (store linearWorld p)) = currentProcessId (currentState (sim linearWorld)))
      (processes (sim linearWorld)) = Some 3 \<and>
   conditional (store linearWorld 3) = None \<and>
   nth_opt (nodes (store linearWorld 3)) (nodeIndex (currentState (sim linearWorld)))
     = Some (demoNode ''flaky'' 0) \<and>
   lookupAgents (sim linearWorld) (activeAgents (currentState (sim linearWorld))) = Inr [agentA, agentB] \<and>
   distinct (activeAgents (currentState (sim linearWorld))) \<and>
   (\<exists>w'. executeStep demoEnv linearWorld = Some (Inr (True, w')) \<and>
      map_option history (map_of (agents (sim w')) ''A'') =
        Some [\<lparr>timestamp = 0, processId = None, nodeId = Some ''flaky'',
               changes = [(''_reasoning'', JUndefined)], reasoning = JUndefined\<rparr>] \<and>
      map_of (agents (sim w')) ''B'' = Some agentB)"
proof -
  have h: "handler demoEnv (demoNode ''flaky'' 0) agentB = Inl (CapabilityError ''network'')"
    by (simp add: handler_def demoEnv_def demoPrompt_def demoNode_def agentB_def)
  have hA: "handler demoEnv (demoNode ''flaky'' 0) agentA = Inr [(''_reasoning'', JUndefined)]"
    by (simp add: handler_def demoEnv_def demoPrompt_def demoNode_def agentA_def parseAIReponse_def
        deserialize_def destructure_def demoParse_def spread_def)
  have pre: "\<not> isComplete (currentState (sim linearWorld)) \<and>
   find (\<lambda>p. Some (id_process (store linearWorld p)) = currentProcessId (currentState (sim linearWorld)))
      (processes (sim linearWorld)) = Some 3 \<and>
   conditional (store linearWorld 3) = None \<and>
   nth_opt (nodes (store linearWorld 3)) (nodeIndex (currentState (sim linearWorld)))
     = Some (demoNode ''flaky'' 0) \<and>
   lookupAgents (sim linearWorld) (activeAgents (currentState (sim linearWorld))) = Inr [agentA, agentB] \<and>
   distinct (activeAgents (currentState (sim linearWorld)))"
    by (simp add: linearWorld_def demoWorld_def demoStore_def demoProcess_def nth_opt_def
        demoSim_def addAgent_def newSimulation_def getAgentState_def agentA_def agentB_def)
  from capability_failure_skipped [of demoEnv "demoNode ''flaky'' 0" agentB "CapabilityError ''network''"
      linearWorld 3 "[agentA, agentB]"] h pre
  obtain w' where e: "execute demoEnv (demoNode ''flaky'' 0) agentB = Inr agentB"
    and s: "executeStep demoEnv linearWorld = Some (Inr (True, w'))"
    and m: "\<forall>i<2. map_of (agents (sim w')) ([''A'', ''B''] ! i) =
            Some (case handler demoEnv (demoNode ''flaky'' 0) ([agentA, agentB] ! i) of
                    Inl e \<Rightarrow> [agentA, agentB] ! i
                  | Inr chs \<Rightarrow> applyChanges demoEnv (demoNode ''flaky'' 0) ([agentA, agentB] ! i) chs)"
    by (auto simp: linearWorld_def demoWorld_def demoStore_def demoProcess_def)
  from m [rule_format, of 0] m [rule_format, of 1] h hA
  have "map_option history (map_of (agents (sim w')) ''A'') =
        Some [\<lparr>timestamp = 0, processId = None, nodeId = Some ''flaky'',
               changes = [(''_reasoning'', JUndefined)], reasoning = JUndefined\<rparr>] \<and>
      map_of (agents (sim w')) ''B'' = Some agentB"
    by (simp add: applyChanges_def agentA_def demoEnv_def demoNode_def getProp_def)
  with init_linear h e pre s show ?thesis by blast
qed

section \<open>A reply that is not well-formed\<close>

text \<open>
  C6. When the reply of the capability does not deserialize, \<^verbatim>\<open>parseAIReponse\<close> yields the
  change set of an error marker and the raw reply, and \<^verbatim>\<open>execute\<close> returns normally with
  that change set merged into the attributes (the two keys set, every other key as
  before) and one history entry appended that records it.
\<close>

theorem malformed_reply_recorded:
  assumes "(if useChainOfThought (config_node node) then promptThinking env node agent
            else prompt env node agent) = Inr response"
    and "deserialize env response = Inl err"
  shows "parseAIReponse env response =
           [(''_error'', JStr ''Invalid AI response''), (''_raw'', raw_reply response)] \<and>
         (\<exists>agent'. execute env node agent = Inr agent' \<and>
            id_agent agent' = id_agent agent \<and>
            map_of (attributes agent') =
              (map_of (attributes agent))
                (''_error'' \<mapsto> JStr ''Invalid AI response'', ''_raw'' \<mapsto> raw_reply response) \<and>
            history agent' = history agent @
              [\<lparr>timestamp = now env node agent, processId = None, nodeId = Some (id_node node),
                changes =
                  [(''_error'', JStr ''Invalid AI response''), (''_raw'', raw_reply response)],
                reasoning = JUndefined\<rparr>])"
proof -
  have p: "parseAIReponse env response =
      [(''_error'', JStr ''Invalid AI response''), (''_raw'', raw_reply response)]"
    using assms(2) by (simp add: parseAIReponse_def)
  have h: "handler env node agent = Inr (parseAIReponse env response)"
    using assms(1) by (simp add: handler_def)
  show ?thesis
    unfolding execute_Inr h p
    by (auto simp add: applyChanges_def map_of_spread getProp_def fun_eq_iff map_add_def)
qed

theorem malformed_reply_recorded_witness:
  "(if useChainOfThought (config_node (demoNode ''garbled'' 2))
    then promptThinking demoEnv (demoNode ''garbled'' 2) agentA
    else prompt demoEnv (demoNode ''garbled'' 2) agentA) = Inr (Single ''oops'') \<and>
   deserialize demoEnv (Single ''oops'') = Inl SyntaxError \<and>
   execute demoEnv (demoNode ''garbled'' 2) agentA =
     Inr \<lparr>id_agent = ''A'',
          attributes = [(''height'', JNum 160), (''_error'', JStr ''Invalid AI response''),
                        (''_raw'', JStr ''oops'')],
          history = [\<lparr>timestamp = 0, processId = None, nodeId = Some ''garbled'',
                      changes = [(''_error'', JStr ''Invalid AI response''),
                                 (''_raw'', JStr ''oops'')],
                      reasoning = JUndefined\<rparr>]\<rparr>"
proof -
  have 1: "(if useChainOfThought (config_node (demoNode ''garbled'' 2))
    then promptThinking demoEnv (demoNode ''garbled'' 2) agentA
    else prompt demoEnv (demoNode ''garbled'' 2) agentA) = Inr (Single ''oops'')"
    by (simp add: demoNode_def demoEnv_def demoPrompt_def)
  have 2: "deserialize demoEnv (Single ''oops'') = Inl SyntaxError"
    by (simp add: deserialize_def destructure_def demoEnv_def demoParse_def replyHeight_def)
  from malformed_reply_recorded [OF 1 2] 1 2 show ?thesis
    by (simp add: execute_Inr handler_def applyChanges_def spread_def getProp_def raw_reply_def
        agentA_def demoNode_def demoEnv_def)
qed

section \<open>Usage statistics of the tracked services\<close>









section \<open>Resetting a process\<close>

lemma reset_plain:
  "conditional (h r) = None \<Longrightarrow>
     resetExecution r h = Some (h(r := (h r)\<lparr>currentNodeIndex := 0\<rparr>))"
  by (subst resetExecution.simps) simp

lemma sameShape_refl: "sameShape h h"
  by (simp add: sameShape_def)

lemma sameShape_trans: "sameShape h h1 \<Longrightarrow> sameShape h1 h2 \<Longrightarrow> sameShape h h2"
  by (simp add: sameShape_def)

lemma sameShape_conditional:
  "sameShape h h' \<Longrightarrow> conditional (h r) = Some c \<Longrightarrow>
     \<exists>c'. conditional (h' r) = Some c' \<and> condition c' = condition c \<and>
          trueBranch c' = trueBranch c \<and> falseBranch c' = falseBranch c"
  unfolding sameShape_def
  by (drule_tac x = r in spec) (cases "conditional (h' r)"; auto)

lemma sameShape_plain:
  "sameShape h h' \<Longrightarrow> conditional (h' r) = None \<longleftrightarrow> conditional (h r) = None"
  unfolding sameShape_def
  by (drule_tac x = r in spec) auto

lemma sameShape_sym: "sameShape h h' \<Longrightarrow> sameShape h' h"
  by (simp add: sameShape_def)

lemma sameShape_branchEdge_le: "sameShape h h' \<Longrightarrow> branchEdge h \<subseteq> branchEdge h'"
  unfolding branchEdge_def by (fastforce dest: sameShape_conditional)

lemma sameShape_branchEdge: "sameShape h h' \<Longrightarrow> branchEdge h' = branchEdge h"
  using sameShape_branchEdge_le [of h h'] sameShape_branchEdge_le [of h' h]
  by (auto dest: sameShape_sym)

lemma sameShape_cursor:
  "sameShape h (h(r := (h r)\<lparr>currentNodeIndex := k\<rparr>))"
  by (simp add: sameShape_def)

lemma sameShape_bindings:
  "conditional (h r) = Some c \<Longrightarrow>
     sameShape h (h(r := (h r)\<lparr>conditional := Some (c\<lparr>branchStates := bs\<rparr>)\<rparr>))"
  by (simp add: sameShape_def)

lemma reset_frame:
  "resetExecution r h = Some h' \<Longrightarrow>
     sameShape h h' \<and> (\<forall>x. h' x \<noteq> h x \<longrightarrow> (r, x) \<in> (branchEdge h)\<^sup>*) \<and>
     (r, r) \<notin> (branchEdge h)\<^sup>+"
proof (induction rule: resetExecution.raw_induct [rotated 1, consumes 1])
  case (1 f this h y)
  show ?case
  proof (cases "conditional (h this)")
    case None
    then have y: "y = h(this := (h this)\<lparr>currentNodeIndex := 0\<rparr>)"
      using 1(2) by simp
    have "(this, this) \<notin> (branchEdge h)\<^sup>+"
      using None by (auto dest!: tranclD simp: branchEdge_def)
    moreover have "sameShape h y" unfolding y by (rule sameShape_cursor)
    moreover have "\<forall>x. y x \<noteq> h x \<longrightarrow> (this, x) \<in> (branchEdge h)\<^sup>*"
      unfolding y by simp
    ultimately show ?thesis by blast
  next
    case (Some c)
    define h1 where "h1 = h(this := (h this)\<lparr>currentNodeIndex := 0,
        conditional := Some (c\<lparr>branchStates := []\<rparr>)\<rparr>)"
    have s1: "sameShape h h1" using Some by (simp add: h1_def sameShape_def)
    from 1(2) Some obtain h2 where t: "f (trueBranch c) h1 = Some h2"
      and e: "f (falseBranch c) h2 = Some y"
      by (auto simp: h1_def bind_eq_Some_conv)
    from 1(1) [OF t] have s2: "sameShape h1 h2"
      and t2: "\<forall>x. h2 x \<noteq> h1 x \<longrightarrow> (trueBranch c, x) \<in> (branchEdge h1)\<^sup>*"
      and c2: "(trueBranch c, trueBranch c) \<notin> (branchEdge h1)\<^sup>+" by simp_all
    from 1(1) [OF e] have s3: "sameShape h2 y"
      and t3: "\<forall>x. y x \<noteq> h2 x \<longrightarrow> (falseBranch c, x) \<in> (branchEdge h2)\<^sup>*"
      and c3: "(falseBranch c, falseBranch c) \<notin> (branchEdge h2)\<^sup>+" by simp_all
    have E1: "branchEdge h1 = branchEdge h" using s1 by (rule sameShape_branchEdge)
    have E2: "branchEdge h2 = branchEdge h"
      using sameShape_trans [OF s1 s2] by (rule sameShape_branchEdge)
    have et: "(this, trueBranch c) \<in> branchEdge h" and ee: "(this, falseBranch c) \<in> branchEdge h"
      using Some by (auto simp: branchEdge_def)
    have kids: "\<And>z. (this, z) \<in> branchEdge h \<Longrightarrow> z = trueBranch c \<or> z = falseBranch c"
      using Some by (auto simp: branchEdge_def)
    have shape: "sameShape h y"
      using s1 s2 s3 by (blast intro: sameShape_trans)
    have touched: "(this, x) \<in> (branchEdge h)\<^sup>*" if "y x \<noteq> h x" for x
    proof -
      from that consider "y x \<noteq> h2 x" | "h2 x \<noteq> h1 x" | "h1 x \<noteq> h x" by metis
      then show ?thesis
      proof cases
        case 1
        then have "(falseBranch c, x) \<in> (branchEdge h)\<^sup>*" using t3 E2 by simp
        then show ?thesis using ee by (rule converse_rtrancl_into_rtrancl [rotated])
      next
        case 2
        then have "(trueBranch c, x) \<in> (branchEdge h)\<^sup>*" using t2 E1 by simp
        then show ?thesis using et by (rule converse_rtrancl_into_rtrancl [rotated])
      next
        case 3
        then have "x = this" by (auto simp: h1_def split: if_splits)
        then show ?thesis by simp
      qed
    qed
    have acyclic: "(this, this) \<notin> (branchEdge h)\<^sup>+"
    proof
      assume "(this, this) \<in> (branchEdge h)\<^sup>+"
      then obtain z where z: "(this, z) \<in> branchEdge h" and zt: "(z, this) \<in> (branchEdge h)\<^sup>*"
        by (auto dest: tranclD)
      then have "(z, z) \<in> (branchEdge h)\<^sup>+" by (rule_tac rtrancl_into_trancl1)
      with kids [OF z] c2 c3 E1 E2 show False by auto
    qed
    from shape touched acyclic show ?thesis by blast
  qed
qed

section \<open>Bindings of a conditional process\<close>

lemma reset_child_untouched:
  assumes "conditional (h P) = Some c"
    and "b = trueBranch c \<or> b = falseBranch c"
    and "resetExecution b h = Some h'"
  shows "h' P = h P"
proof (rule ccontr)
  assume "h' P \<noteq> h P"
  with reset_frame [OF assms(3)] have "(b, P) \<in> (branchEdge h)\<^sup>*"
    and n: "(b, b) \<notin> (branchEdge h)\<^sup>+" by simp_all
  moreover have "(P, b) \<in> branchEdge h" using assms(1,2) by (auto simp: branchEdge_def)
  ultimately have "(b, b) \<in> (branchEdge h)\<^sup>+" by (rule_tac rtrancl_into_trancl1)
  with n show False ..
qed

lemma initBranchState_unbound:
  assumes "conditional (h P) = Some c"
    and "map_of (branchStates c) (id_agent agent) = None"
    and "initBranchState P c agent h = Some h1"
  shows "\<exists>h0. resetExecution (if condition c agent then trueBranch c else falseBranch c) h = Some h0 \<and>
           h0 P = h P \<and>
           h1 = h0(P := (h P)\<lparr>conditional := Some (c\<lparr>branchStates :=
                   AList.update (id_agent agent)
                     \<lparr>branch = (if condition c agent then trueBranch c else falseBranch c),
                      completed = False\<rparr> (branchStates c)\<rparr>)\<rparr>)"
proof -
  let ?br = "if condition c agent then trueBranch c else falseBranch c"
  from assms(2,3) obtain h0 where r: "resetExecution ?br h = Some h0"
    by (auto simp: initBranchState_def Let_def split: option.splits)
  have u: "h0 P = h P"
    using reset_child_untouched [OF assms(1) _ r] by auto
  from assms(2,3) r u assms(1) show ?thesis
    by (auto simp: initBranchState_def Let_def)
qed

lemma sameShape_update:
  "sameShape h h' \<Longrightarrow> conditional (h' r) = Some c \<Longrightarrow>
     sameShape h (h'(r := (h' r)\<lparr>conditional := Some (c\<lparr>branchStates := bs\<rparr>)\<rparr>))"
  by (rule sameShape_trans [OF _ sameShape_bindings])

lemma initBranchState_keeps:
  assumes "conditional (h P) = Some c"
    and "initBranchState P c agent h = Some h1"
  shows "sameShape h h1 \<and>
         (\<exists>c1. conditional (h1 P) = Some c1 \<and>
            map_of (branchStates c1) (id_agent agent) \<noteq> None \<and>
            (\<forall>k bs. map_of (branchStates c) k = Some bs \<longrightarrow> map_of (branchStates c1) k = Some bs))"
proof (cases "map_of (branchStates c) (id_agent agent)")
  case None
  from initBranchState_unbound [OF assms(1) None assms(2)] obtain h0 where
    r: "resetExecution (if condition c agent then trueBranch c else falseBranch c) h = Some h0"
    and u: "h0 P = h P"
    and h1: "h1 = h0(P := (h P)\<lparr>conditional := Some (c\<lparr>branchStates :=
                   AList.update (id_agent agent)
                     \<lparr>branch = (if condition c agent then trueBranch c else falseBranch c),
                      completed = False\<rparr> (branchStates c)\<rparr>)\<rparr>)" by blast
  have "sameShape h h0" using reset_frame [OF r] by simp
  then have "sameShape h h1"
    unfolding h1 u [symmetric] using assms(1) u by (intro sameShape_update) simp_all
  then show ?thesis using None by (auto simp: h1 update_conv')
next
  case (Some bs)
  then have "h1 = h" using assms(2) by (simp add: initBranchState_def)
  then show ?thesis using assms(1) Some by (simp add: sameShape_refl)
qed

lemma stepBranch_keeps:
  assumes "conditional (h P) = Some c"
    and "stepBranch env P agent h hm = Inr (agent', h2, hm')"
  shows "sameShape h h2 \<and>
         (\<exists>c2. conditional (h2 P) = Some c2 \<and>
            (\<forall>k bs. map_of (branchStates c) k = Some bs \<longrightarrow>
               (\<exists>bs'. map_of (branchStates c2) k = Some bs' \<and> branch bs' = branch bs)))"
  using assms
  by (auto simp: stepBranch_def executeAgentStep_def execute_executed sameShape_def update_conv'
      split: option.splits if_splits sum.splits)

lemma conditionalLoop_keeps:
  assumes "conditionalLoop env P ags h hm = Some (Inr (ags', h', hm'))"
  shows "sameShape h h' \<and>
         (\<forall>k b. getActiveBranch P k h = Some b \<longrightarrow> getActiveBranch P k h' = Some b)"
  using assms
proof (induction ags arbitrary: h hm ags' h' hm')
  case Nil
  then show ?case by (simp add: sameShape_refl)
next
  case (Cons agent rest)
  show ?case
  proof (cases "currentNodeIndex (h P) < length (nodes (h P))")
    case True
    with Cons.prems obtain rest' where
      "conditionalLoop env P rest h True = Some (Inr (rest', h', hm'))"
      by (auto simp: execute_executed split: option.splits sum.splits)
    then show ?thesis by (rule Cons.IH)
  next
    case False
    with Cons.prems obtain c h1 agent' h2 hm2 rest' where
      c: "conditional (h P) = Some c"
      and i: "initBranchState P c agent h = Some h1"
      and s: "stepBranch env P agent h1 hm = Inr (agent', h2, hm2)"
      and r: "conditionalLoop env P rest h2 hm2 = Some (Inr (rest', h', hm'))"
      by (auto split: option.splits sum.splits)
    from initBranchState_keeps [OF c i] obtain c1 where
      s1: "sameShape h h1" and c1: "conditional (h1 P) = Some c1"
      and k1: "\<forall>k bs. map_of (branchStates c) k = Some bs \<longrightarrow> map_of (branchStates c1) k = Some bs"
      by blast
    from stepBranch_keeps [OF c1 s] obtain c2 where
      s2: "sameShape h1 h2" and c2: "conditional (h2 P) = Some c2"
      and k2: "\<forall>k bs. map_of (branchStates c1) k = Some bs \<longrightarrow>
               (\<exists>bs'. map_of (branchStates c2) k = Some bs' \<and> branch bs' = branch bs)"
      by blast
    from Cons.IH [OF r] have s3: "sameShape h2 h'"
      and k3: "\<forall>k b. getActiveBranch P k h2 = Some b \<longrightarrow> getActiveBranch P k h' = Some b"
      by simp_all
    have "sameShape h h'" using s1 s2 s3 by (blast intro: sameShape_trans)
    moreover have "getActiveBranch P k h' = Some b" if "getActiveBranch P k h = Some b" for k b
    proof -
      from that c obtain bs where "map_of (branchStates c) k = Some bs" "branch bs = b"
        by (auto simp: getActiveBranch_def)
      with k1 k2 obtain bs' where "map_of (branchStates c2) k = Some bs'" "branch bs' = b"
        by metis
      then have "getActiveBranch P k h2 = Some b" using c2 by (simp add: getActiveBranch_def)
      with k3 show ?thesis by simp
    qed
    ultimately show ?thesis by blast
  qed
qed

lemma executeConditionalStep_keeps:
  assumes "executeConditionalStep env P ags h = Some (Inr (hm', ags', h'))"
  shows "sameShape h h' \<and>
         (\<forall>k b. getActiveBranch P k h = Some b \<longrightarrow> getActiveBranch P k h' = Some b)"
proof -
  from assms obtain h1 hm1 where l: "conditionalLoop env P ags h False = Some (Inr (ags', h1, hm1))"
    and h': "h' = h1 \<or> h' = h1(P := (h1 P)\<lparr>currentNodeIndex := currentNodeIndex (h1 P) + 1\<rparr>)"
    by (auto simp: executeConditionalStep_def split: option.splits sum.splits if_splits)
  from conditionalLoop_keeps [OF l] have s: "sameShape h h1"
    and k: "\<forall>k b. getActiveBranch P k h = Some b \<longrightarrow> getActiveBranch P k h1 = Some b" by simp_all
  from h' show ?thesis
  proof
    assume "h' = h1" with s k show ?thesis by simp
  next
    assume e: "h' = h1(P := (h1 P)\<lparr>currentNodeIndex := currentNodeIndex (h1 P) + 1\<rparr>)"
    have "sameShape h h'" unfolding e by (rule sameShape_trans [OF s sameShape_cursor])
    moreover have "getActiveBranch P k h' = getActiveBranch P k h1" for k
      unfolding e by (simp add: getActiveBranch_def)
    ultimately show ?thesis using k by simp
  qed
qed

section \<open>What a step leaves untouched\<close>

lemma find_sameShape:
  "sameShape h h' \<Longrightarrow>
     find (\<lambda>p. Some (id_process (h' p)) = x) ps = find (\<lambda>p. Some (id_process (h p)) = x) ps"
  by (simp add: sameShape_def)

lemma executeStep_conditional:
  assumes "\<not> isComplete (currentState (sim w))"
    and "find (\<lambda>p. Some (id_process (store w p)) = currentProcessId (currentState (sim w)))
           (processes (sim w)) = Some P"
    and "conditional (store w P) = Some c"
    and "lookupAgents (sim w) (activeAgents (currentState (sim w))) = Inr ags"
    and "executeConditionalStep env P ags (store w) = Some (Inr (hasMore, ags', h'))"
  shows "executeStep env w =
    Some (Inr (hasMore,
      \<lparr>store = h', sim = storeAgents (activeAgents (currentState (sim w))) ags' (sim w)\<rparr>))"
  using assms by (simp add: executeStep_def Let_def isConditional_def)

text \<open>What a step leaves untouched, whatever the current process is.\<close>

lemma executeStep_frame:
  assumes "executeStep env w = Some (Inr (hasMore, w'))"
  shows "sameShape (store w) (store w') \<and>
         processes (sim w') = processes (sim w) \<and>
         currentProcessId (currentState (sim w')) = currentProcessId (currentState (sim w)) \<and>
         activeAgents (currentState (sim w')) = activeAgents (currentState (sim w))"
proof (cases "isComplete (currentState (sim w))")
  case True
  then show ?thesis using assms by (simp add: executeStep_def Let_def sameShape_refl)
next
  case False
  show ?thesis
  proof (cases "find (\<lambda>p. Some (id_process (store w p)) = currentProcessId (currentState (sim w)))
           (processes (sim w))")
    case None
    then show ?thesis using assms False
      by (auto simp add: executeStep_def Let_def sameShape_refl)
  next
    case (Some P)
    show ?thesis
    proof (cases "isConditional (store w P)")
      case True
      with assms False Some obtain ags ags' h' where
        "executeConditionalStep env P ags (store w) = Some (Inr (hasMore, ags', h'))"
        and w': "w' = \<lparr>store = h', sim = storeAgents (activeAgents (currentState (sim w))) ags' (sim w)\<rparr>"
        by (auto simp: executeStep_def Let_def split: sum.splits option.splits)
      from executeConditionalStep_keeps [OF this(1)] show ?thesis
        by (simp add: w' storeAgents_def)
    next
      case False
      with assms \<open>\<not> isComplete (currentState (sim w))\<close> Some show ?thesis
        by (auto simp: executeStep_def Let_def storeAgents_def sameShape_refl
            split: sum.splits option.splits)
    qed
  qed
qed

text \<open>A step of a conditional process leaves the run state as it is.\<close>

lemma executeStep_conditional_state:
  assumes "executeStep env w = Some (Inr (hasMore, w'))"
    and "find (\<lambda>p. Some (id_process (store w p)) = currentProcessId (currentState (sim w)))
           (processes (sim w)) = Some P"
    and "isConditional (store w P)"
  shows "currentState (sim w') = currentState (sim w)"
  using assms
  by (auto simp: executeStep_def Let_def storeAgents_def split: sum.splits option.splits if_splits)

lemma executeStep_bindings:
  assumes "executeStep env w = Some (Inr (hasMore, w'))"
    and "find (\<lambda>p. Some (id_process (store w p)) = currentProcessId (currentState (sim w)))
           (processes (sim w)) = Some P"
    and "getActiveBranch P k (store w) = Some b"
  shows "getActiveBranch P k (store w') = Some b"
proof (cases "isComplete (currentState (sim w))")
  case True
  then show ?thesis using assms by (simp add: executeStep_def Let_def)
next
  case False
  have "isConditional (store w P)"
    using assms(3) by (auto simp: getActiveBranch_def isConditional_def split: option.splits)
  with assms False obtain ags ags' h' where
    "executeConditionalStep env P ags (store w) = Some (Inr (hasMore, ags', h'))"
    and w': "w' = \<lparr>store = h', sim = storeAgents (activeAgents (currentState (sim w))) ags' (sim w)\<rparr>"
    by (auto simp: executeStep_def Let_def split: sum.splits option.splits)
  from executeConditionalStep_keeps [OF this(1)] assms(3) show ?thesis
    by (simp add: w')
qed

lemma stepsTo_frame:
  assumes "stepsTo env w w'"
    and "find (\<lambda>p. Some (id_process (store w p)) = currentProcessId (currentState (sim w)))
           (processes (sim w)) = Some P"
  shows "find (\<lambda>p. Some (id_process (store w' p)) = currentProcessId (currentState (sim w')))
           (processes (sim w')) = Some P \<and>
         sameShape (store w) (store w') \<and>
         (\<forall>k b. getActiveBranch P k (store w) = Some b \<longrightarrow> getActiveBranch P k (store w') = Some b) \<and>
         (isConditional (store w P) \<longrightarrow> currentState (sim w') = currentState (sim w))"
  using assms
proof (induction rule: stepsTo.induct)
  case refl
  then show ?case by (simp add: sameShape_refl)
next
  case (step w1 hasMore w2)
  from step.IH [OF step.prems] have
    f1: "find (\<lambda>p. Some (id_process (store w1 p)) = currentProcessId (currentState (sim w1)))
           (processes (sim w1)) = Some P"
    and s1: "sameShape (store w) (store w1)"
    and k1: "\<forall>k b. getActiveBranch P k (store w) = Some b \<longrightarrow> getActiveBranch P k (store w1) = Some b"
    and c1: "isConditional (store w P) \<longrightarrow> currentState (sim w1) = currentState (sim w)"
    by simp_all
  from executeStep_frame [OF step.hyps(2)] have
    s2: "sameShape (store w1) (store w2)"
    and p2: "processes (sim w2) = processes (sim w1)"
    and i2: "currentProcessId (currentState (sim w2)) = currentProcessId (currentState (sim w1))"
    by simp_all
  have "find (\<lambda>p. Some (id_process (store w2 p)) = currentProcessId (currentState (sim w2)))
           (processes (sim w2)) = Some P"
    using f1 by (simp add: p2 i2 find_sameShape [OF s2])
  moreover have "sameShape (store w) (store w2)" using s1 s2 by (rule sameShape_trans)
  moreover have "getActiveBranch P k (store w2) = Some b" if "getActiveBranch P k (store w) = Some b" for k b
    using executeStep_bindings [OF step.hyps(2) f1] k1 that by simp
  moreover have "currentState (sim w2) = currentState (sim w)" if "isConditional (store w P)"
  proof -
    have "isConditional (store w1 P)"
      using that s1 sameShape_plain [OF s1, of P] by (simp add: isConditional_def)
    from executeStep_conditional_state [OF step.hyps(2) f1 this] c1 that show ?thesis by simp
  qed
  ultimately show ?case by blast
qed

section \<open>The scenario of the specification\<close>

lemma getAIServices_plain:
  "conditional (h r) = None \<Longrightarrow>
     getAIServices r h = Some (map (\<lambda>n. aiService (config_node n)) (nodes (h r)))"
  by (subst getAIServices.simps) simp

lemma two_agent_step:
  assumes shape: "sameShape h0 h"
    and f: "find (\<lambda>p. Some (id_process (h0 p)) = Some pid) ps = Some P"
    and c: "conditional (h P) = Some c"
    and e: "executeConditionalStep env P [A, B] h = Some (Inr (hasMore, [A', B'], h'))"
    and ab: "a \<noteq> b"
    and st: "currentState s = \<lparr>currentProcessId = Some pid, activeAgents = [a, b],
               nodeIndex = 0, isComplete = False\<rparr>"
    and ps: "processes s = ps"
    and ags: "agents s = [(a, A), (b, B)]"
  shows "executeStep env \<lparr>store = h, sim = s\<rparr> =
           Some (Inr (hasMore, \<lparr>store = h', sim = s\<lparr>agents := [(a, A'), (b, B')]\<rparr>\<rparr>))"
proof -
  let ?w = "\<lparr>store = h, sim = s\<rparr>"
  have 1: "\<not> isComplete (currentState (sim ?w))" by (simp add: st)
  have 2: "find (\<lambda>p. Some (id_process (store ?w p)) = currentProcessId (currentState (sim ?w)))
             (processes (sim ?w)) = Some P"
    using f find_sameShape [OF shape, of "Some pid" ps] by (simp add: st ps)
  have 3: "conditional (store ?w P) = Some c" using c by simp
  have 4: "lookupAgents (sim ?w) (activeAgents (currentState (sim ?w))) = Inr [A, B]"
    using ab by (simp add: st ags getAgentState_def)
  have 5: "executeConditionalStep env P [A, B] (store ?w) = Some (Inr (hasMore, [A', B'], h'))"
    using e by simp
  from executeStep_conditional [OF 1 2 3 4 5] ab show ?thesis
    by (simp add: storeAgents_def st ags)
qed

lemma scenario_run:
  assumes refs: "P \<noteq> T" "P \<noteq> F" "T \<noteq> F"
    and ids: "a \<noteq> b" "id_agent A = a" "id_agent B = b"
    and ags: "agents (sim w) = [(a, A), (b, B)]"
    and P: "conditional (store w P) = Some c" "trueBranch c = T" "falseBranch c = F"
      "branchStates c = []" "currentNodeIndex (store w P) = 0" "nodes (store w P) = [n0]"
    and T: "conditional (store w T) = None" "nodes (store w T) = [t0, t1]"
    and F: "conditional (store w F) = None" "nodes (store w F) = [f0]"
    and cur: "find (\<lambda>p. id_process (store w p) = id_process (store w P))
                (processes (sim w) @ [P]) = Some P"
    and q: "condition c (executed env n0 A)" "\<not> condition c (executed env n0 B)"
  shows "\<exists>w0 w1 w2 w3 w4.
     initializeProcess P w = Some w0 \<and>
     executeStep env w0 = Some (Inr (True, w1)) \<and>
     executeStep env w1 = Some (Inr (True, w2)) \<and>
     executeStep env w2 = Some (Inr (True, w3)) \<and>
     executeStep env w3 = Some (Inr (False, w4)) \<and>
     executeStep env w4 = Some (Inr (False, w4)) \<and>
     runProcess env P w = Some (Inr (4, w4)) \<and>
     map_of (agents (sim w4)) a = Some (executed env t1 (executed env t0 (executed env n0 A))) \<and>
     map_of (agents (sim w4)) b = Some (executed env f0 (executed env n0 B)) \<and>
     currentNodeIndex (store w2 T) = 1 \<and>
     currentNodeIndex (store w3 T) = 2 \<and> currentNodeIndex (store w3 F) = 1 \<and>
     getActiveBranch P a (store w2) = Some T \<and> getActiveBranch P b (store w2) = Some F \<and>
     getActiveBranch P a (store w4) = Some T \<and> getActiveBranch P b (store w4) = Some F \<and>
     currentNodeIndex (store w4 P) = 1 \<and>
     conditional (store w4 P) =
       Some (c\<lparr>branchStates := [(a, \<lparr>branch = T, completed = True\<rparr>),
                                (b, \<lparr>branch = F, completed = True\<rparr>)]\<rparr>) \<and>
     agents (sim w4) =
       [(a, executed env t1 (executed env t0 (executed env n0 A))),
        (b, executed env f0 (executed env n0 B))] \<and>
     processes (sim w4) = processes (sim w) @ [P] \<and>
     sameShape (store w) (store w4)"
proof -
  let ?h = "store w"
  define pid where "pid = id_process (?h P)"
  define st where "st = \<lparr>currentProcessId = Some pid, activeAgents = [a, b], nodeIndex = 0,
    isComplete = False\<rparr>"
  define s0 where "s0 = (sim w)
     \<lparr>currentState := st,
      aiServices := foldl trackAIService (aiServices (sim w))
         (map (\<lambda>n. aiService (config_node n)) [n0] @ map (\<lambda>n. aiService (config_node n)) [t0, t1] @
          map (\<lambda>n. aiService (config_node n)) [f0]),
      processes := processes (sim w) @ [P],
      executionQueue := [(pid, a, 0), (pid, b, 0)]\<rparr>"
  define A1 B1 A2 B2 A3 where "A1 = executed env n0 A" and "B1 = executed env n0 B"
    and "A2 = executed env t0 A1" and "B2 = executed env f0 B1" and "A3 = executed env t1 A2"
  have idA: "id_agent A1 = a" "id_agent A2 = a" "id_agent A3 = a"
    and idB: "id_agent B1 = b" "id_agent B2 = b"
    using ids by (simp_all add: A1_def A2_def A3_def B1_def B2_def executed_def applyChanges_def
        split: sum.splits)
  define bs2 where "bs2 = [(a, \<lparr>branch = T, completed = False\<rparr>), (b, \<lparr>branch = F, completed = False\<rparr>)]"
  define bs3 where "bs3 = [(a, \<lparr>branch = T, completed = False\<rparr>), (b, \<lparr>branch = F, completed = True\<rparr>)]"
  define bs4 where "bs4 = [(a, \<lparr>branch = T, completed = True\<rparr>), (b, \<lparr>branch = F, completed = True\<rparr>)]"
  define h1 where "h1 = ?h(P := (?h P)\<lparr>currentNodeIndex := 1\<rparr>)"
  define h2 where "h2 = h1(T := (?h T)\<lparr>currentNodeIndex := 1\<rparr>, F := (?h F)\<lparr>currentNodeIndex := 1\<rparr>,
     P := (h1 P)\<lparr>conditional := Some (c\<lparr>branchStates := bs2\<rparr>)\<rparr>)"
  define h3 where "h3 = h2(T := (?h T)\<lparr>currentNodeIndex := 2\<rparr>,
     P := (h1 P)\<lparr>conditional := Some (c\<lparr>branchStates := bs3\<rparr>)\<rparr>)"
  define h4 where "h4 = h3(P := (h1 P)\<lparr>conditional := Some (c\<lparr>branchStates := bs4\<rparr>)\<rparr>)"
  define w0 where "w0 = \<lparr>store = ?h, sim = s0\<rparr>"
  define w1 where "w1 = \<lparr>store = h1, sim = s0\<lparr>agents := [(a, A1), (b, B1)]\<rparr>\<rparr>"
  define w2 where "w2 = \<lparr>store = h2, sim = s0\<lparr>agents := [(a, A2), (b, B2)]\<rparr>\<rparr>"
  define w3 where "w3 = \<lparr>store = h3, sim = s0\<lparr>agents := [(a, A3), (b, B2)]\<rparr>\<rparr>"
  define w4 where "w4 = \<lparr>store = h4, sim = s0\<lparr>agents := [(a, A3), (b, B2)]\<rparr>\<rparr>"
  have services: "getAIServices P ?h = Some (map (\<lambda>n. aiService (config_node n)) [n0] @
      map (\<lambda>n. aiService (config_node n)) [t0, t1] @ map (\<lambda>n. aiService (config_node n)) [f0])"
    by (subst getAIServices.simps) (simp add: P T F getAIServices_plain)
  have "w\<lparr>sim := s0\<rparr> = w0" by (cases w) (simp add: w0_def)
  then have i: "initializeProcess P w = Some w0"
    by (simp add: initializeProcess_def services Let_def ags s0_def st_def pid_def)
  have shape: "sameShape ?h h1" "sameShape ?h h2" "sameShape ?h h3" "sameShape ?h h4"
    using refs P by (simp_all add: sameShape_def h1_def h2_def h3_def h4_def)
  have f: "find (\<lambda>p. Some (id_process (?h p)) = Some pid) (processes (sim w) @ [P]) = Some P"
    using cur by (simp add: pid_def)
  have st0: "currentState s0 = \<lparr>currentProcessId = Some pid, activeAgents = [a, b],
               nodeIndex = 0, isComplete = False\<rparr>"
    and ps0: "processes s0 = processes (sim w) @ [P]"
    and ags0: "agents s0 = [(a, A), (b, B)]"
    by (simp_all add: s0_def st_def ags)
  have c1: "executeConditionalStep env P [A, B] ?h = Some (Inr (True, [A1, B1], h1))"
    using P by (simp add: executeConditionalStep_def execute_executed A1_def B1_def h1_def)
  have e1: "executeStep env w0 = Some (Inr (True, w1))"
    using two_agent_step [OF sameShape_refl f P(1) c1 ids(1) st0 ps0 ags0]
    by (simp add: w0_def w1_def)
  have c2: "executeConditionalStep env P [A1, B1] h1 = Some (Inr (True, [A2, B2], h2))"
    using refs P T F q ids idA idB
    by (simp add: executeConditionalStep_def initBranchState_def stepBranch_def executeAgentStep_def
      reset_plain execute_executed Let_def h1_def h2_def A1_def [symmetric] B1_def [symmetric]
      A2_def B2_def bs2_def fun_upd_twist)
  have e2: "executeStep env w1 = Some (Inr (True, w2))"
    using two_agent_step [OF shape(1) f _ c2 ids(1), of c "s0\<lparr>agents := [(a, A1), (b, B1)]\<rparr>"]
      P(1) st0 ps0
    by (simp add: w1_def w2_def h1_def)
  have c3: "executeConditionalStep env P [A2, B2] h2 = Some (Inr (True, [A3, B2], h3))"
    using refs P T F ids idA idB
    by (simp add: executeConditionalStep_def initBranchState_def stepBranch_def executeAgentStep_def
      execute_executed Let_def h1_def h2_def h3_def A3_def bs2_def bs3_def fun_upd_twist
      numeral_2_eq_2)
  have e3: "executeStep env w2 = Some (Inr (True, w3))"
    using two_agent_step [OF shape(2) f _ c3 ids(1),
        of "c\<lparr>branchStates := bs2\<rparr>" "s0\<lparr>agents := [(a, A2), (b, B2)]\<rparr>"] st0 ps0
    by (simp add: w2_def w3_def h2_def)
  have c4: "executeConditionalStep env P [A3, B2] h3 = Some (Inr (False, [A3, B2], h4))"
    using refs P T F ids idA idB
    by (simp add: executeConditionalStep_def initBranchState_def stepBranch_def executeAgentStep_def
      execute_executed Let_def h1_def h2_def h3_def h4_def bs3_def bs4_def fun_upd_twist)
  have e4: "executeStep env w3 = Some (Inr (False, w4))"
    using two_agent_step [OF shape(3) f _ c4 ids(1),
        of "c\<lparr>branchStates := bs3\<rparr>" "s0\<lparr>agents := [(a, A3), (b, B2)]\<rparr>"] st0 ps0
    by (simp add: w3_def w4_def h3_def)
  have c5: "executeConditionalStep env P [A3, B2] h4 = Some (Inr (False, [A3, B2], h4))"
    using refs P T F ids idA idB
    by (simp add: executeConditionalStep_def initBranchState_def stepBranch_def executeAgentStep_def
      execute_executed Let_def h1_def h2_def h3_def h4_def bs4_def)
  have e5: "executeStep env w4 = Some (Inr (False, w4))"
    using two_agent_step [OF shape(4) f _ c5 ids(1),
        of "c\<lparr>branchStates := bs4\<rparr>" "s0\<lparr>agents := [(a, A3), (b, B2)]\<rparr>"] st0 ps0
    by (simp add: w4_def h4_def)
  have obs: "map_of (agents (sim w4)) a = Some (executed env t1 (executed env t0 (executed env n0 A)))"
     "map_of (agents (sim w4)) b = Some (executed env f0 (executed env n0 B))"
     "currentNodeIndex (store w2 T) = 1"
     "currentNodeIndex (store w3 T) = 2" "currentNodeIndex (store w3 F) = 1"
     "getActiveBranch P a (store w2) = Some T" "getActiveBranch P b (store w2) = Some F"
     "getActiveBranch P a (store w4) = Some T" "getActiveBranch P b (store w4) = Some F"
     "currentNodeIndex (store w4 P) = 1"
     "conditional (store w4 P) =
       Some (c\<lparr>branchStates := [(a, \<lparr>branch = T, completed = True\<rparr>),
                                (b, \<lparr>branch = F, completed = True\<rparr>)]\<rparr>)"
     "agents (sim w4) =
       [(a, executed env t1 (executed env t0 (executed env n0 A))),
        (b, executed env f0 (executed env n0 B))]"
     "processes (sim w4) = processes (sim w) @ [P]"
    using refs ids
    by (simp_all add: w2_def w3_def w4_def h1_def h2_def h3_def h4_def A3_def A2_def A1_def B2_def B1_def
        getActiveBranch_def bs2_def bs4_def numeral_2_eq_2 s0_def)
  have obs4: "sameShape (store w) (store w4)" using shape(4) by (simp add: w4_def)
  have "runLoop env k w3 = Some (Inr (k + 1, w4))" for k
    by (subst runLoop.simps) (simp add: e4)
  then have "runLoop env k w2 = Some (Inr (k + 2, w4))" for k
    by (subst runLoop.simps) (simp add: e3)
  then have "runLoop env k w1 = Some (Inr (k + 3, w4))" for k
    by (subst runLoop.simps) (simp add: e2)
  then have "runLoop env k w0 = Some (Inr (k + 4, w4))" for k
    by (subst runLoop.simps) (simp add: e1)
  then have r: "runProcess env P w = Some (Inr (4, w4))"
    by (simp add: runProcess_def i)
  from i e1 e2 e3 e4 e5 r obs obs4 show ?thesis by blast
qed

lemma executed_history:
  "handler env node agent = Inr chs \<Longrightarrow>
     length (history (executed env node agent)) = length (history agent) + 1"
  by (simp add: executed_def applyChanges_def)

lemma executed_nodeIds:
  "handler env node agent = Inr chs \<Longrightarrow>
     map nodeId (history (executed env node agent)) =
       map nodeId (history agent) @ [Some (id_node node)]"
  by (simp add: executed_def applyChanges_def)

lemma demo_handler:
  "id_node node \<notin> {''flaky'', ''garbled'', ''shrink''} \<Longrightarrow> \<not> useChainOfThought (config_node node) \<Longrightarrow>
     handler demoEnv node agent = Inr [(''_reasoning'', JUndefined)]"
  by (simp add: handler_def demoEnv_def demoPrompt_def parseAIReponse_def deserialize_def
      destructure_def demoParse_def spread_def)

lemma demo_handler_shrink:
  "id_node node = ''shrink'' \<Longrightarrow> \<not> useChainOfThought (config_node node) \<Longrightarrow>
     handler demoEnv node agent = Inr [(''height'', JNum 100), (''_reasoning'', JUndefined)]"
  by (simp add: handler_def demoEnv_def demoPrompt_def parseAIReponse_def deserialize_def
      destructure_def demoParse_def spread_def replyHeight_def dq_def)

lemma demo_store:
  "store demoWorld 0 = (demoProcess ''height-check-flow'' [demoNode ''ticketBox'' 0])
             \<lparr>conditional := Some \<lparr>condition = heightIn 150 200, trueBranch = 1,
                                    falseBranch = 2, branchStates = []\<rparr>\<rparr>"
  "store demoWorld (Suc 0) = demoProcess ''full-ride'' [demoNode ''rideOperator'' 0, demoNode ''shrink'' 1]"
  "store demoWorld 2 = demoProcess ''short-exit'' [demoNode ''exitStaff'' 1]"
  "store demoWorld 3 = demoProcess ''linear'' [demoNode ''flaky'' 0, demoNode ''garbled'' 2]"
  "agents (sim demoWorld) = [(''A'', agentA), (''B'', agentB)]"
  "processes (sim demoWorld) = []"
  by (simp_all add: demoWorld_def demoStore_def demoSim_def addAgent_def newSimulation_def
      agentA_def agentB_def)

text \<open>
  C1. A conditional process with one shared node, a true branch of two nodes and a false
  branch of one node, both plain processes, started fresh on two agents A and B, where
  the predicate holds of A and not of B when the engine evaluates it (after the shared
  node) and no capability call fails. Then \<^verbatim>\<open>executeStep\<close> returns true three times and
  false at the fourth call, which is where \<^verbatim>\<open>runProcess\<close> stops; A has three history
  entries more than before and B two; A is bound to the true branch and B to the false
  branch; before the third call the true branch is not exhausted, and before the
  fourth call, the first to return false, both branches are.
\<close>

theorem conditional_scenario:
  assumes refs: "P \<noteq> T" "P \<noteq> F" "T \<noteq> F"
    and ids: "a \<noteq> b" "id_agent A = a" "id_agent B = b"
    and ags: "agents (sim w) = [(a, A), (b, B)]"
    and P: "conditional (store w P) = Some c" "trueBranch c = T" "falseBranch c = F"
      "branchStates c = []" "currentNodeIndex (store w P) = 0" "nodes (store w P) = [n0]"
    and T: "conditional (store w T) = None" "nodes (store w T) = [t0, t1]"
    and F: "conditional (store w F) = None" "nodes (store w F) = [f0]"
    and cur: "find (\<lambda>p. id_process (store w p) = id_process (store w P))
                (processes (sim w) @ [P]) = Some P"
    and q: "condition c (executed env n0 A)" "\<not> condition c (executed env n0 B)"
    and ok: "\<forall>node agent. node \<in> {n0, t0, t1, f0} \<longrightarrow> (\<exists>chs. handler env node agent = Inr chs)"
  shows "\<exists>w0 w1 w2 w3 w4 A' B'.
     initializeProcess P w = Some w0 \<and>
     executeStep env w0 = Some (Inr (True, w1)) \<and>
     executeStep env w1 = Some (Inr (True, w2)) \<and>
     executeStep env w2 = Some (Inr (True, w3)) \<and>
     executeStep env w3 = Some (Inr (False, w4)) \<and>
     runProcess env P w = Some (Inr (4, w4)) \<and>
     getAgentState (sim w4) a = Inr A' \<and> length (history A') = length (history A) + 3 \<and>
     map nodeId (history A') =
       map nodeId (history A) @ [Some (id_node n0), Some (id_node t0), Some (id_node t1)] \<and>
     getAgentState (sim w4) b = Inr B' \<and> length (history B') = length (history B) + 2 \<and>
     map nodeId (history B') =
       map nodeId (history B) @ [Some (id_node n0), Some (id_node f0)] \<and>
     getActiveBranch P a (store w2) = Some T \<and> getActiveBranch P b (store w2) = Some F \<and>
     currentNodeIndex (store w2 T) < length (nodes (store w2 T)) \<and>
     currentNodeIndex (store w3 T) = length (nodes (store w3 T)) \<and>
     currentNodeIndex (store w3 F) = length (nodes (store w3 F))"
proof -
  from scenario_run [OF refs ids ags P T F cur q] obtain w0 w1 w2 w3 w4 where
    run: "initializeProcess P w = Some w0"
      "executeStep env w0 = Some (Inr (True, w1))"
      "executeStep env w1 = Some (Inr (True, w2))"
      "executeStep env w2 = Some (Inr (True, w3))"
      "executeStep env w3 = Some (Inr (False, w4))"
      "runProcess env P w = Some (Inr (4, w4))"
    and fa: "map_of (agents (sim w4)) a = Some (executed env t1 (executed env t0 (executed env n0 A)))"
    and fb: "map_of (agents (sim w4)) b = Some (executed env f0 (executed env n0 B))"
    and cu: "currentNodeIndex (store w2 T) = 1" "currentNodeIndex (store w3 T) = 2"
      "currentNodeIndex (store w3 F) = 1"
    and br: "getActiveBranch P a (store w2) = Some T" "getActiveBranch P b (store w2) = Some F"
    by blast
  have hist: "length (history (executed env node agent)) = length (history agent) + 1"
    if "node \<in> {n0, t0, t1, f0}" for node agent
    using ok that executed_history [of env node agent] by blast
  have la: "length (history (executed env t1 (executed env t0 (executed env n0 A)))) =
      length (history A) + 3"
    by (simp add: hist)
  have lb: "length (history (executed env f0 (executed env n0 B))) = length (history B) + 2"
    by (simp add: hist)
  have ids: "map nodeId (history (executed env node agent)) =
      map nodeId (history agent) @ [Some (id_node node)]"
    if "node \<in> {n0, t0, t1, f0}" for node agent
    using ok that executed_nodeIds [of env node agent] by blast
  have na: "map nodeId (history (executed env t1 (executed env t0 (executed env n0 A)))) =
      map nodeId (history A) @ [Some (id_node n0), Some (id_node t0), Some (id_node t1)]"
    by (simp add: ids)
  have nb: "map nodeId (history (executed env f0 (executed env n0 B))) =
      map nodeId (history B) @ [Some (id_node n0), Some (id_node f0)]"
    by (simp add: ids)
  from executeStep_frame [OF run(2)] executeStep_frame [OF run(3)] executeStep_frame [OF run(4)]
    run(1)
  have s2: "sameShape (store w) (store w2)" and s3: "sameShape (store w) (store w3)"
    by (auto simp: initializeProcess_def Let_def split: option.splits intro: sameShape_trans)
  have n2: "nodes (store w2 T) = [t0, t1]" "nodes (store w3 T) = [t0, t1]" "nodes (store w3 F) = [f0]"
    using s2 s3 T F by (simp_all add: sameShape_def)
  from run fa fb la lb na nb br cu n2 show ?thesis
    by (simp add: getAgentState_def)
qed

theorem conditional_scenario_witness:
  "agents (sim demoWorld) = [(''A'', agentA), (''B'', agentB)] \<and>
   conditional (store demoWorld 0) =
     Some \<lparr>condition = heightIn 150 200, trueBranch = 1, falseBranch = 2, branchStates = []\<rparr> \<and>
   currentNodeIndex (store demoWorld 0) = 0 \<and>
   nodes (store demoWorld 0) = [demoNode ''ticketBox'' 0] \<and>
   conditional (store demoWorld 1) = None \<and>
   nodes (store demoWorld 1) = [demoNode ''rideOperator'' 0, demoNode ''shrink'' 1] \<and>
   conditional (store demoWorld 2) = None \<and>
   nodes (store demoWorld 2) = [demoNode ''exitStaff'' 1] \<and>
   heightIn 150 200 agentA \<and> \<not> heightIn 150 200 agentB \<and>
   heightIn 150 200 (executed demoEnv (demoNode ''ticketBox'' 0) agentA) \<and>
   \<not> heightIn 150 200 (executed demoEnv (demoNode ''ticketBox'' 0) agentB) \<and>
   (\<exists>w0 w1 w2 w3 w4 A' B'.
     initializeProcess 0 demoWorld = Some w0 \<and>
     executeStep demoEnv w0 = Some (Inr (True, w1)) \<and>
     executeStep demoEnv w1 = Some (Inr (True, w2)) \<and>
     executeStep demoEnv w2 = Some (Inr (True, w3)) \<and>
     executeStep demoEnv w3 = Some (Inr (False, w4)) \<and>
     runProcess demoEnv 0 demoWorld = Some (Inr (4, w4)) \<and>
     getAgentState (sim w4) ''A'' = Inr A' \<and> length (history A') = 3 \<and>
     map nodeId (history A') = [Some ''ticketBox'', Some ''rideOperator'', Some ''shrink''] \<and>
     getAgentState (sim w4) ''B'' = Inr B' \<and> length (history B') = 2 \<and>
     map nodeId (history B') = [Some ''ticketBox'', Some ''exitStaff''] \<and>
     getActiveBranch 0 ''A'' (store w2) = Some 1 \<and> getActiveBranch 0 ''B'' (store w2) = Some 2 \<and>
     currentNodeIndex (store w2 1) < length (nodes (store w2 1)) \<and>
     currentNodeIndex (store w3 1) = length (nodes (store w3 1)) \<and>
     currentNodeIndex (store w3 2) = length (nodes (store w3 2)))"
proof -
  let ?c = "\<lparr>condition = heightIn 150 200, trueBranch = 1, falseBranch = 2, branchStates = []\<rparr>"
  have refs: "(0::nat) \<noteq> 1" "(0::nat) \<noteq> 2" "(1::nat) \<noteq> 2" by simp_all
  have ids: "''A'' \<noteq> ''B''" "id_agent agentA = ''A''" "id_agent agentB = ''B''"
    by (simp_all add: agentA_def agentB_def)
  have ags: "agents (sim demoWorld) = [(''A'', agentA), (''B'', agentB)]" by (rule demo_store)
  have P: "conditional (store demoWorld 0) = Some ?c" "trueBranch ?c = 1" "falseBranch ?c = 2"
    "branchStates ?c = []" "currentNodeIndex (store demoWorld 0) = 0"
    "nodes (store demoWorld 0) = [demoNode ''ticketBox'' 0]"
    by (simp_all add: demo_store demoProcess_def)
  have T: "conditional (store demoWorld 1) = None"
    "nodes (store demoWorld 1) = [demoNode ''rideOperator'' 0, demoNode ''shrink'' 1]"
    by (simp_all add: demo_store demoProcess_def)
  have F: "conditional (store demoWorld 2) = None"
    "nodes (store demoWorld 2) = [demoNode ''exitStaff'' 1]"
    by (simp_all add: demo_store demoProcess_def)
  have cur: "find (\<lambda>p. id_process (store demoWorld p) = id_process (store demoWorld 0))
                (processes (sim demoWorld) @ [0]) = Some 0"
    by (simp add: demo_store)
  have q0: "heightIn 150 200 agentA" "\<not> heightIn 150 200 agentB"
    by (simp_all add: heightIn_def agentA_def agentB_def)
  have q: "condition ?c (executed demoEnv (demoNode ''ticketBox'' 0) agentA)"
    "\<not> condition ?c (executed demoEnv (demoNode ''ticketBox'' 0) agentB)"
    by (simp_all add: executed_def demo_handler demoNode_def applyChanges_def spread_def
        heightIn_def agentA_def agentB_def)
  have ok: "\<forall>node agent. node \<in> {demoNode ''ticketBox'' 0, demoNode ''rideOperator'' 0,
      demoNode ''shrink'' 1, demoNode ''exitStaff'' 1} \<longrightarrow> (\<exists>chs. handler demoEnv node agent = Inr chs)"
    by (auto simp: demo_handler demo_handler_shrink demoNode_def)
  have len: "length (history agentA) + 3 = 3" "length (history agentB) + 2 = 2"
    "map nodeId (history agentA) @
       [Some (id_node (demoNode ''ticketBox'' 0)), Some (id_node (demoNode ''rideOperator'' 0)),
        Some (id_node (demoNode ''shrink'' 1))] =
     [Some ''ticketBox'', Some ''rideOperator'', Some ''shrink'']"
    "map nodeId (history agentB) @
       [Some (id_node (demoNode ''ticketBox'' 0)), Some (id_node (demoNode ''exitStaff'' 1))] =
     [Some ''ticketBox'', Some ''exitStaff'']"
    by (simp_all add: agentA_def agentB_def demoNode_def)
  from conditional_scenario [OF refs ids ags P T F cur q ok]
  have "\<exists>w0 w1 w2 w3 w4 A' B'.
     initializeProcess 0 demoWorld = Some w0 \<and>
     executeStep demoEnv w0 = Some (Inr (True, w1)) \<and>
     executeStep demoEnv w1 = Some (Inr (True, w2)) \<and>
     executeStep demoEnv w2 = Some (Inr (True, w3)) \<and>
     executeStep demoEnv w3 = Some (Inr (False, w4)) \<and>
     runProcess demoEnv 0 demoWorld = Some (Inr (4, w4)) \<and>
     getAgentState (sim w4) ''A'' = Inr A' \<and> length (history A') = 3 \<and>
     map nodeId (history A') = [Some ''ticketBox'', Some ''rideOperator'', Some ''shrink''] \<and>
     getAgentState (sim w4) ''B'' = Inr B' \<and> length (history B') = 2 \<and>
     map nodeId (history B') = [Some ''ticketBox'', Some ''exitStaff''] \<and>
     getActiveBranch 0 ''A'' (store w2) = Some 1 \<and> getActiveBranch 0 ''B'' (store w2) = Some 2 \<and>
     currentNodeIndex (store w2 1) < length (nodes (store w2 1)) \<and>
     currentNodeIndex (store w3 1) = length (nodes (store w3 1)) \<and>
     currentNodeIndex (store w3 2) = length (nodes (store w3 2))"
    unfolding len .
  with ags P(1,5,6) T F q0 q [simplified] show ?thesis by blast
qed

section \<open>Replacing the predicate\<close>

lemma setCondition_conditional:
  "conditional (setCondition q P h r) =
     (if r = P then map_option (\<lambda>c. c\<lparr>condition := q\<rparr>) (conditional (h P)) else conditional (h r))"
  by (simp add: setCondition_def)

lemma setCondition_fields:
  "currentNodeIndex (setCondition q P h r) = currentNodeIndex (h r)"
  "nodes (setCondition q P h r) = nodes (h r)"
  "id_process (setCondition q P h r) = id_process (h r)"
  by (simp_all add: setCondition_def)

lemma setCondition_cursor:
  "(setCondition q P h)(r := (setCondition q P h r)\<lparr>currentNodeIndex := k\<rparr>) =
     setCondition q P (h(r := (h r)\<lparr>currentNodeIndex := k\<rparr>))"
  by (auto simp: setCondition_def fun_eq_iff)

lemma reset_setCondition_fwd:
  "resetExecution r h = Some h' \<Longrightarrow>
     resetExecution r (setCondition q P h) = Some (setCondition q P h')"
proof (induction rule: resetExecution.raw_induct [rotated 1, consumes 1])
  case (1 f this h y)
  show ?case
  proof (cases "conditional (h this)")
    case None
    then have y: "y = h(this := (h this)\<lparr>currentNodeIndex := 0\<rparr>)"
      using 1(2) by simp
    have "conditional (setCondition q P h this) = None"
      using None by (auto simp: setCondition_conditional)
    then have "resetExecution this (setCondition q P h) =
        Some (setCondition q P (h(this := (h this)\<lparr>currentNodeIndex := 0\<rparr>)))"
      by (simp add: reset_plain setCondition_cursor)
    then show ?thesis unfolding y .
  next
    case (Some c)
    define h1 where "h1 = h(this := (h this)\<lparr>currentNodeIndex := 0,
        conditional := Some (c\<lparr>branchStates := []\<rparr>)\<rparr>)"
    from 1(2) Some obtain h2 where t: "f (trueBranch c) h1 = Some h2"
      and e: "f (falseBranch c) h2 = Some y"
      by (auto simp: h1_def bind_eq_Some_conv)
    define c' where "c' = (if this = P then c\<lparr>condition := q\<rparr> else c)"
    have c': "conditional (setCondition q P h this) = Some c'"
      "trueBranch c' = trueBranch c" "falseBranch c' = falseBranch c"
      using Some by (auto simp: setCondition_conditional c'_def)
    have h1': "(setCondition q P h)(this := (setCondition q P h this)\<lparr>currentNodeIndex := 0,
        conditional := Some (c'\<lparr>branchStates := []\<rparr>)\<rparr>) = setCondition q P h1"
      using Some by (auto simp: setCondition_def fun_eq_iff h1_def c'_def)
    show ?thesis
      by (subst resetExecution.simps) (simp add: c' h1' 1(1) [OF t] 1(1) [OF e])
  qed
qed

lemma setCondition_undo:
  "\<exists>q0. setCondition q0 P (setCondition q P h) = h"
proof (cases "conditional (h P)")
  case None
  then have "setCondition q P (setCondition q P h) = h"
    by (auto simp: setCondition_def fun_eq_iff)
  then show ?thesis by blast
next
  case (Some c)
  then have "setCondition (condition c) P (setCondition q P h) = h"
    by (auto simp: setCondition_def fun_eq_iff)
  then show ?thesis by blast
qed

lemma reset_setCondition:
  "resetExecution r (setCondition q P h) = map_option (setCondition q P) (resetExecution r h)"
proof (cases "resetExecution r h")
  case (Some h')
  then show ?thesis by (simp add: reset_setCondition_fwd)
next
  case None
  show ?thesis
  proof (cases "resetExecution r (setCondition q P h)")
    case None
    then show ?thesis using \<open>resetExecution r h = None\<close> by simp
  next
    case (Some g)
    obtain q0 where "setCondition q0 P (setCondition q P h) = h"
      using setCondition_undo by blast
    with reset_setCondition_fwd [OF Some, of q0 P] None show ?thesis by simp
  qed
qed

lemma initBranchState_setCondition:
  assumes "map_of (branchStates c) (id_agent agent) \<noteq> None \<or> q agent = condition c agent"
  shows "initBranchState P (c\<lparr>condition := q\<rparr>) agent (setCondition q P h) =
           map_option (setCondition q P) (initBranchState P c agent h)"
proof (cases "map_of (branchStates c) (id_agent agent)")
  case (Some bs)
  then show ?thesis by (simp add: initBranchState_def)
next
  case None
  with assms have q: "q agent = condition c agent" by simp
  define br where "br = (if condition c agent then trueBranch c else falseBranch c)"
  have o: "initBranchState P c agent h =
      (case resetExecution br h of
         None \<Rightarrow> None
       | Some h1 \<Rightarrow>
           (case conditional (h1 P) of
              None \<Rightarrow> Some h1
            | Some c1 \<Rightarrow>
                Some (h1(P := (h1 P)\<lparr>conditional := Some (c1\<lparr>branchStates :=
                  AList.update (id_agent agent) \<lparr>branch = br, completed = False\<rparr>
                    (branchStates c1)\<rparr>)\<rparr>))))"
    using None by (simp add: initBranchState_def Let_def br_def cong: option.case_cong)
  have m: "initBranchState P (c\<lparr>condition := q\<rparr>) agent (setCondition q P h) =
      (case resetExecution br (setCondition q P h) of
         None \<Rightarrow> None
       | Some h1 \<Rightarrow>
           (case conditional (h1 P) of
              None \<Rightarrow> Some h1
            | Some c1 \<Rightarrow>
                Some (h1(P := (h1 P)\<lparr>conditional := Some (c1\<lparr>branchStates :=
                  AList.update (id_agent agent) \<lparr>branch = br, completed = False\<rparr>
                    (branchStates c1)\<rparr>)\<rparr>))))"
    using None q by (simp add: initBranchState_def Let_def br_def cong: option.case_cong)
  show ?thesis
  proof (cases "resetExecution br h")
    case None
    then show ?thesis unfolding o m by (simp add: reset_setCondition)
  next
    case (Some h0)
    then have r: "resetExecution br (setCondition q P h) = Some (setCondition q P h0)"
      by (simp add: reset_setCondition)
    show ?thesis unfolding o m r Some
      by (cases "conditional (h0 P)") (auto simp add: setCondition_def fun_eq_iff)
  qed
qed

lemma stepBranch_setCondition:
  "stepBranch env P agent (setCondition q P h) hm =
     map_sum id (\<lambda>(a, h', m). (a, setCondition q P h', m)) (stepBranch env P agent h hm)"
  by (auto simp: stepBranch_def executeAgentStep_def execute_executed setCondition_def fun_eq_iff
      split: option.splits)

lemma conditionalLoop_setCondition:
  assumes "conditional (h P) = Some c"
    and "\<forall>x\<in>set ags. map_of (branchStates c) (id_agent x) \<noteq> None \<or> q x = condition c x"
  shows "conditionalLoop env P ags (setCondition q P h) hm =
           map_option (map_sum id (\<lambda>(ags', h', m). (ags', setCondition q P h', m)))
             (conditionalLoop env P ags h hm)"
  using assms
proof (induction ags arbitrary: h hm c)
  case Nil
  then show ?case by simp
next
  case (Cons agent rest)
  have rest: "\<forall>x\<in>set rest. map_of (branchStates c) (id_agent x) \<noteq> None \<or> q x = condition c x"
    and this_agent: "map_of (branchStates c) (id_agent agent) \<noteq> None \<or> q agent = condition c agent"
    using Cons.prems(2) by simp_all
  show ?case
  proof (cases "currentNodeIndex (h P) < length (nodes (h P))")
    case True
    from Cons.IH [of h c True, OF Cons.prems(1) rest] True show ?thesis
      by (cases "conditionalLoop env P rest h True")
         (auto simp: setCondition_fields execute_executed split: sum.splits)
  next
    case False
    have cq: "conditional (setCondition q P h P) = Some (c\<lparr>condition := q\<rparr>)"
      using Cons.prems(1) by (simp add: setCondition_conditional)
    note i = initBranchState_setCondition [of c agent q P h, OF this_agent]
    show ?thesis
    proof (cases "initBranchState P c agent h")
      case None
      then show ?thesis using False Cons.prems(1) cq i
        by (simp add: setCondition_fields)
    next
      case (Some h1)
      from initBranchState_keeps [OF Cons.prems(1) Some] obtain c1 where
        s1: "sameShape h h1" and c1: "conditional (h1 P) = Some c1"
        and k1: "\<forall>k bs. map_of (branchStates c) k = Some bs \<longrightarrow> map_of (branchStates c1) k = Some bs"
        by blast
      show ?thesis
      proof (cases "stepBranch env P agent h1 hm")
        case (Inl e)
        then show ?thesis using False Cons.prems(1) cq i Some
          by (simp add: setCondition_fields stepBranch_setCondition)
      next
        case (Inr r)
        obtain agent' h2 hm2 where r: "r = (agent', h2, hm2)" by (cases r)
        from stepBranch_keeps [OF c1 Inr [unfolded r]] obtain c2 where
          s2: "sameShape h1 h2" and c2: "conditional (h2 P) = Some c2"
          and k2: "\<forall>k bs. map_of (branchStates c1) k = Some bs \<longrightarrow>
               (\<exists>bs'. map_of (branchStates c2) k = Some bs' \<and> branch bs' = branch bs)"
          by blast
        have "condition c2 = condition c"
          using sameShape_conditional [OF sameShape_trans [OF s1 s2] Cons.prems(1)] c2 by simp
        moreover have "map_of (branchStates c2) k \<noteq> None" if "map_of (branchStates c) k \<noteq> None" for k
          using that k1 k2 by fastforce
        ultimately have "\<forall>x\<in>set rest. map_of (branchStates c2) (id_agent x) \<noteq> None \<or>
            q x = condition c2 x"
          using rest by auto
        from Cons.IH [of h2 c2 hm2, OF c2 this] show ?thesis
          using False Cons.prems(1) cq i Some Inr r
          by (cases "conditionalLoop env P rest h2 hm2")
             (auto simp: setCondition_fields stepBranch_setCondition split: sum.splits)
      qed
    qed
  qed
qed

lemma executeConditionalStep_setCondition:
  assumes "conditional (h P) = Some c"
    and "\<forall>x\<in>set ags. map_of (branchStates c) (id_agent x) \<noteq> None \<or> q x = condition c x"
  shows "executeConditionalStep env P ags (setCondition q P h) =
           map_option (map_sum id (\<lambda>(b, ags', h'). (b, ags', setCondition q P h')))
             (executeConditionalStep env P ags h)"
  unfolding executeConditionalStep_def
    conditionalLoop_setCondition [of h P c ags q, OF assms]
  by (cases "conditionalLoop env P ags h False")
     (auto simp: setCondition_fields setCondition_cursor split: sum.splits)

section \<open>The run with another predicate\<close>

lemma executeStep_setCondition:
  assumes f: "find (\<lambda>p. Some (id_process (store w p)) = currentProcessId (currentState (sim w)))
           (processes (sim w)) = Some P"
    and c: "conditional (store w P) = Some c"
    and b: "map_of (branchStates c) k \<noteq> None"
    and q: "\<forall>x. id_agent x \<noteq> k \<longrightarrow> q x = condition c x"
    and e: "executeStep env w = Some (Inr (hasMore, w'))"
  shows "executeStep env (w\<lparr>store := setCondition q P (store w)\<rparr>) =
           Some (Inr (hasMore, w'\<lparr>store := setCondition q P (store w')\<rparr>))"
proof (cases "isComplete (currentState (sim w))")
  case True
  then show ?thesis using e by (auto simp: executeStep_def Let_def)
next
  case False
  let ?wq = "w\<lparr>store := setCondition q P (store w)\<rparr>"
  have cond: "isConditional (store w P)" using c by (simp add: isConditional_def)
  from e False f cond obtain ags ags' h' where
    l: "lookupAgents (sim w) (activeAgents (currentState (sim w))) = Inr ags"
    and s: "executeConditionalStep env P ags (store w) = Some (Inr (hasMore, ags', h'))"
    and w': "w' = \<lparr>store = h', sim = storeAgents (activeAgents (currentState (sim w))) ags' (sim w)\<rparr>"
    by (auto simp: executeStep_def Let_def split: sum.splits option.splits)
  have pre: "\<forall>x\<in>set ags. map_of (branchStates c) (id_agent x) \<noteq> None \<or> q x = condition c x"
    using b q by auto
  have 1: "\<not> isComplete (currentState (sim ?wq))" using False by simp
  have 2: "find (\<lambda>p. Some (id_process (store ?wq p)) = currentProcessId (currentState (sim ?wq)))
             (processes (sim ?wq)) = Some P"
    using f by (simp add: setCondition_fields)
  have 3: "conditional (store ?wq P) = Some (c\<lparr>condition := q\<rparr>)"
    using c by (simp add: setCondition_conditional)
  have 4: "lookupAgents (sim ?wq) (activeAgents (currentState (sim ?wq))) = Inr ags"
    using l by simp
  have 5: "executeConditionalStep env P ags (store ?wq) =
      Some (Inr (hasMore, ags', setCondition q P h'))"
    using executeConditionalStep_setCondition [of "store w" P c ags q env, OF c pre] s by simp
  from executeStep_conditional [OF 1 2 3 4 5] show ?thesis by (simp add: w')
qed

lemma demo_executed:
  "executed demoEnv (demoNode ''ticketBox'' 0) agentA =
     \<lparr>id_agent = ''A'', attributes = [(''height'', JNum 160), (''_reasoning'', JUndefined)],
      history = [\<lparr>timestamp = 0, processId = None, nodeId = Some ''ticketBox'',
                  changes = [(''_reasoning'', JUndefined)], reasoning = JUndefined\<rparr>]\<rparr>"
  "executed demoEnv (demoNode ''shrink'' 1)
     (executed demoEnv (demoNode ''rideOperator'' 0)
        (executed demoEnv (demoNode ''ticketBox'' 0) agentA)) =
     \<lparr>id_agent = ''A'', attributes = [(''height'', JNum 100), (''_reasoning'', JUndefined)],
      history = [\<lparr>timestamp = 0, processId = None, nodeId = Some ''ticketBox'',
                  changes = [(''_reasoning'', JUndefined)], reasoning = JUndefined\<rparr>,
                 \<lparr>timestamp = 1, processId = None, nodeId = Some ''rideOperator'',
                  changes = [(''_reasoning'', JUndefined)], reasoning = JUndefined\<rparr>,
                 \<lparr>timestamp = 2, processId = None, nodeId = Some ''shrink'',
                  changes = [(''height'', JNum 100), (''_reasoning'', JUndefined)],
                  reasoning = JUndefined\<rparr>]\<rparr>"
proof -
  have h: "handler demoEnv (demoNode ''ticketBox'' service) agent =
       Inr [(''_reasoning'', JUndefined)]"
    "handler demoEnv (demoNode ''rideOperator'' service) agent =
       Inr [(''_reasoning'', JUndefined)]"
    "handler demoEnv (demoNode ''shrink'' service) agent =
       Inr [(''height'', JNum 100), (''_reasoning'', JUndefined)]" for agent service
    by (simp_all add: demo_handler demo_handler_shrink demoNode_def)
  have n: "now demoEnv node agent = length (history agent)" "id_node (demoNode nid service) = nid"
    for node agent nid service
    by (simp_all add: demoEnv_def demoNode_def)
  show "executed demoEnv (demoNode ''ticketBox'' 0) agentA =
     \<lparr>id_agent = ''A'', attributes = [(''height'', JNum 160), (''_reasoning'', JUndefined)],
      history = [\<lparr>timestamp = 0, processId = None, nodeId = Some ''ticketBox'',
                  changes = [(''_reasoning'', JUndefined)], reasoning = JUndefined\<rparr>]\<rparr>"
    by (simp add: executed_def h n applyChanges_def spread_def getProp_def agentA_def)
  then show "executed demoEnv (demoNode ''shrink'' 1)
     (executed demoEnv (demoNode ''rideOperator'' 0)
        (executed demoEnv (demoNode ''ticketBox'' 0) agentA)) =
     \<lparr>id_agent = ''A'', attributes = [(''height'', JNum 100), (''_reasoning'', JUndefined)],
      history = [\<lparr>timestamp = 0, processId = None, nodeId = Some ''ticketBox'',
                  changes = [(''_reasoning'', JUndefined)], reasoning = JUndefined\<rparr>,
                 \<lparr>timestamp = 1, processId = None, nodeId = Some ''rideOperator'',
                  changes = [(''_reasoning'', JUndefined)], reasoning = JUndefined\<rparr>,
                 \<lparr>timestamp = 2, processId = None, nodeId = Some ''shrink'',
                  changes = [(''height'', JNum 100), (''_reasoning'', JUndefined)],
                  reasoning = JUndefined\<rparr>]\<rparr>"
    by (simp add: executed_def h n applyChanges_def spread_def getProp_def numeral_2_eq_2)
qed

lemma demo_run:
  "\<exists>w1 w2 w3 w4.
     executeStep demoEnv condWorld = Some (Inr (True, w1)) \<and>
     executeStep demoEnv w1 = Some (Inr (True, w2)) \<and>
     executeStep demoEnv w2 = Some (Inr (True, w3)) \<and>
     executeStep demoEnv w3 = Some (Inr (False, w4)) \<and>
     executeStep demoEnv w4 = Some (Inr (False, w4)) \<and>
     runProcess demoEnv 0 demoWorld = Some (Inr (4, w4)) \<and>
     getActiveBranch 0 ''A'' (store w2) = Some 1 \<and>
     conditional (store w4 0) =
       Some \<lparr>condition = heightIn 150 200, trueBranch = 1, falseBranch = 2,
             branchStates = [(''A'', \<lparr>branch = 1, completed = True\<rparr>),
                             (''B'', \<lparr>branch = 2, completed = True\<rparr>)]\<rparr> \<and>
     currentNodeIndex (store w4 0) = 1 \<and>
     agents (sim w4) =
       [(''A'', executed demoEnv (demoNode ''shrink'' 1)
                 (executed demoEnv (demoNode ''rideOperator'' 0)
                    (executed demoEnv (demoNode ''ticketBox'' 0) agentA))),
        (''B'', executed demoEnv (demoNode ''exitStaff'' 1)
                 (executed demoEnv (demoNode ''ticketBox'' 0) agentB))] \<and>
     processes (sim w4) = [0] \<and>
     sameShape demoStore (store w4)"
proof -
  let ?c = "\<lparr>condition = heightIn 150 200, trueBranch = 1, falseBranch = 2, branchStates = []\<rparr>"
  have refs: "(0::nat) \<noteq> 1" "(0::nat) \<noteq> 2" "(1::nat) \<noteq> 2" by simp_all
  have ids: "''A'' \<noteq> ''B''" "id_agent agentA = ''A''" "id_agent agentB = ''B''"
    by (simp_all add: agentA_def agentB_def)
  have ags: "agents (sim demoWorld) = [(''A'', agentA), (''B'', agentB)]" by (rule demo_store)
  have P: "conditional (store demoWorld 0) = Some ?c" "trueBranch ?c = 1" "falseBranch ?c = 2"
    "branchStates ?c = []" "currentNodeIndex (store demoWorld 0) = 0"
    "nodes (store demoWorld 0) = [demoNode ''ticketBox'' 0]"
    by (simp_all add: demo_store demoProcess_def)
  have T: "conditional (store demoWorld 1) = None"
    "nodes (store demoWorld 1) = [demoNode ''rideOperator'' 0, demoNode ''shrink'' 1]"
    by (simp_all add: demo_store demoProcess_def)
  have F: "conditional (store demoWorld 2) = None"
    "nodes (store demoWorld 2) = [demoNode ''exitStaff'' 1]"
    by (simp_all add: demo_store demoProcess_def)
  have cur: "find (\<lambda>p. id_process (store demoWorld p) = id_process (store demoWorld 0))
                (processes (sim demoWorld) @ [0]) = Some 0"
    by (simp add: demo_store)
  have q: "condition ?c (executed demoEnv (demoNode ''ticketBox'' 0) agentA)"
    "\<not> condition ?c (executed demoEnv (demoNode ''ticketBox'' 0) agentB)"
    by (simp_all add: executed_def demo_handler demoNode_def applyChanges_def spread_def
        heightIn_def agentA_def agentB_def)
  from scenario_run [OF refs ids ags P T F cur q] obtain w0 w1 w2 w3 w4 where
    i: "initializeProcess 0 demoWorld = Some w0"
    and e: "executeStep demoEnv w0 = Some (Inr (True, w1))"
      "executeStep demoEnv w1 = Some (Inr (True, w2))"
      "executeStep demoEnv w2 = Some (Inr (True, w3))"
      "executeStep demoEnv w3 = Some (Inr (False, w4))"
      "executeStep demoEnv w4 = Some (Inr (False, w4))"
      "runProcess demoEnv 0 demoWorld = Some (Inr (4, w4))"
    and b: "getActiveBranch 0 ''A'' (store w2) = Some 1"
    and c4: "conditional (store w4 0) =
       Some (?c\<lparr>branchStates := [(''A'', \<lparr>branch = 1, completed = True\<rparr>),
                                (''B'', \<lparr>branch = 2, completed = True\<rparr>)]\<rparr>)"
    and n4: "currentNodeIndex (store w4 0) = 1"
    and a4: "agents (sim w4) =
       [(''A'', executed demoEnv (demoNode ''shrink'' 1)
                 (executed demoEnv (demoNode ''rideOperator'' 0)
                    (executed demoEnv (demoNode ''ticketBox'' 0) agentA))),
        (''B'', executed demoEnv (demoNode ''exitStaff'' 1)
                 (executed demoEnv (demoNode ''ticketBox'' 0) agentB))]"
    and p4: "processes (sim w4) = processes (sim demoWorld) @ [0]"
    and s4: "sameShape (store demoWorld) (store w4)"
    by blast
  have w0: "w0 = condWorld" using i init_cond by simp
  have c4': "conditional (store w4 0) =
       Some \<lparr>condition = heightIn 150 200, trueBranch = 1, falseBranch = 2,
             branchStates = [(''A'', \<lparr>branch = 1, completed = True\<rparr>),
                             (''B'', \<lparr>branch = 2, completed = True\<rparr>)]\<rparr>"
    using c4 by simp
  have p4': "processes (sim w4) = [0]" using p4 by (simp add: demo_store)
  have s4': "sameShape demoStore (store w4)" using s4 by (simp add: demoWorld_def)
  from e [unfolded w0] b c4' n4 a4 p4' s4' show ?thesis by blast
qed

section \<open>Branch bindings are sticky\<close>

text \<open>
  C5. While the conditional process is the current process of the run, an agent that is
  bound to a branch stays bound to that branch over any number of further steps, as
  \<^verbatim>\<open>getActiveBranch\<close> shows it. The predicate is not consulted for that agent any more:
  the same steps lead through the same states when the process carries any other
  predicate that differs from its own only on agents with that id. In the scenario
  the second node of the true branch lowers the height of A to 100, the predicate no
  longer holds of A, and A stays bound to the true branch.
\<close>

theorem branch_binding_sticky:
  assumes "find (\<lambda>p. Some (id_process (store w p)) = currentProcessId (currentState (sim w)))
           (processes (sim w)) = Some P"
    and "conditional (store w P) = Some c"
    and "getActiveBranch P agentId (store w) = Some b"
    and "stepsTo env w w'"
  shows "getActiveBranch P agentId (store w') = Some b \<and>
         (\<forall>q. (\<forall>x. id_agent x \<noteq> agentId \<longrightarrow> q x = condition c x) \<longrightarrow>
            stepsTo env (w\<lparr>store := setCondition q P (store w)\<rparr>)
              (w'\<lparr>store := setCondition q P (store w')\<rparr>))"
proof
  show "getActiveBranch P agentId (store w') = Some b"
    using stepsTo_frame [OF assms(4) assms(1)] assms(3) by simp
next
  show "\<forall>q. (\<forall>x. id_agent x \<noteq> agentId \<longrightarrow> q x = condition c x) \<longrightarrow>
            stepsTo env (w\<lparr>store := setCondition q P (store w)\<rparr>)
              (w'\<lparr>store := setCondition q P (store w')\<rparr>)"
  proof (intro allI impI)
    fix q
    assume q: "\<forall>x. id_agent x \<noteq> agentId \<longrightarrow> q x = condition c x"
    from assms(4)
    show "stepsTo env (w\<lparr>store := setCondition q P (store w)\<rparr>)
              (w'\<lparr>store := setCondition q P (store w')\<rparr>)"
    proof (induction rule: stepsTo.induct)
      case refl
      show ?case by (rule stepsTo.refl)
    next
      case (step w1 hasMore w2)
      from stepsTo_frame [OF step.hyps(1) assms(1)] have
        f1: "find (\<lambda>p. Some (id_process (store w1 p)) = currentProcessId (currentState (sim w1)))
           (processes (sim w1)) = Some P"
        and s1: "sameShape (store w) (store w1)"
        and b1: "getActiveBranch P agentId (store w1) = Some b"
        using assms(3) by simp_all
      from sameShape_conditional [OF s1 assms(2)] obtain c1 where
        c1: "conditional (store w1 P) = Some c1" and q1: "condition c1 = condition c" by blast
      have k1: "map_of (branchStates c1) agentId \<noteq> None"
        using b1 c1 by (auto simp: getActiveBranch_def)
      have "\<forall>x. id_agent x \<noteq> agentId \<longrightarrow> q x = condition c1 x" using q q1 by simp
      from executeStep_setCondition [OF f1 c1 k1 this step.hyps(2)]
      show ?case using step.IH by (rule_tac stepsTo.step)
    qed
  qed
qed

theorem branch_binding_sticky_witness:
  "\<exists>w2 w4 c A'.
     find (\<lambda>p. Some (id_process (store w2 p)) = currentProcessId (currentState (sim w2)))
       (processes (sim w2)) = Some 0 \<and>
     conditional (store w2 0) = Some c \<and>
     condition c = heightIn 150 200 \<and>
     getActiveBranch 0 ''A'' (store w2) = Some 1 \<and>
     stepsTo demoEnv w2 w4 \<and>
     getAgentState (sim w4) ''A'' = Inr A' \<and> \<not> heightIn 150 200 A' \<and>
     getActiveBranch 0 ''A'' (store w4) = Some 1 \<and>
     stepsTo demoEnv
       (w2\<lparr>store := setCondition (\<lambda>x. id_agent x \<noteq> ''A'' \<and> heightIn 150 200 x) 0 (store w2)\<rparr>)
       (w4\<lparr>store := setCondition (\<lambda>x. id_agent x \<noteq> ''A'' \<and> heightIn 150 200 x) 0 (store w4)\<rparr>)"
proof -
  from demo_run obtain w1 w2 w3 w4 where
    e: "executeStep demoEnv condWorld = Some (Inr (True, w1))"
      "executeStep demoEnv w1 = Some (Inr (True, w2))"
      "executeStep demoEnv w2 = Some (Inr (True, w3))"
      "executeStep demoEnv w3 = Some (Inr (False, w4))"
    and b2: "getActiveBranch 0 ''A'' (store w2) = Some 1"
    and a4: "agents (sim w4) =
       [(''A'', executed demoEnv (demoNode ''shrink'' 1)
                 (executed demoEnv (demoNode ''rideOperator'' 0)
                    (executed demoEnv (demoNode ''ticketBox'' 0) agentA))),
        (''B'', executed demoEnv (demoNode ''exitStaff'' 1)
                 (executed demoEnv (demoNode ''ticketBox'' 0) agentB))]"
    by blast
  have f0: "find (\<lambda>p. Some (id_process (store condWorld p)) =
        currentProcessId (currentState (sim condWorld))) (processes (sim condWorld)) = Some 0"
    by (simp add: condWorld_def demoWorld_def demoStore_def demoProcess_def)
  have c0: "conditional (store condWorld 0) =
      Some \<lparr>condition = heightIn 150 200, trueBranch = 1, falseBranch = 2, branchStates = []\<rparr>"
    by (simp add: condWorld_def demoWorld_def demoStore_def demoProcess_def)
  have s02: "stepsTo demoEnv condWorld w2"
    using stepsTo.step [OF stepsTo.step [OF stepsTo.refl e(1)] e(2)] .
  from stepsTo_frame [OF s02 f0] have
    f2: "find (\<lambda>p. Some (id_process (store w2 p)) = currentProcessId (currentState (sim w2)))
       (processes (sim w2)) = Some 0"
    and sh: "sameShape (store condWorld) (store w2)" by simp_all
  from sameShape_conditional [OF sh c0] obtain c where
    c2: "conditional (store w2 0) = Some c" and q2: "condition c = heightIn 150 200" by auto
  have s24: "stepsTo demoEnv w2 w4"
    using stepsTo.step [OF stepsTo.step [OF stepsTo.refl e(3)] e(4)] .
  have A': "getAgentState (sim w4) ''A'' =
      Inr (executed demoEnv (demoNode ''shrink'' 1)
                 (executed demoEnv (demoNode ''rideOperator'' 0)
                    (executed demoEnv (demoNode ''ticketBox'' 0) agentA)))"
    by (simp add: getAgentState_def a4)
  have n: "\<not> heightIn 150 200 (executed demoEnv (demoNode ''shrink'' 1)
                 (executed demoEnv (demoNode ''rideOperator'' 0)
                    (executed demoEnv (demoNode ''ticketBox'' 0) agentA)))"
    unfolding demo_executed(2) by (simp add: heightIn_def)
  have q: "\<forall>x. id_agent x \<noteq> ''A'' \<longrightarrow>
      (id_agent x \<noteq> ''A'' \<and> heightIn 150 200 x) = condition c x"
    by (simp add: q2)
  note r = branch_binding_sticky [OF f2 c2 b2 s24]
  from r have g4: "getActiveBranch 0 ''A'' (store w4) = Some 1" by (rule conjunct1)
  from r [THEN conjunct2, THEN spec, of "\<lambda>x. id_agent x \<noteq> ''A'' \<and> heightIn 150 200 x"] q
  have st: "stepsTo demoEnv
       (w2\<lparr>store := setCondition (\<lambda>x. id_agent x \<noteq> ''A'' \<and> heightIn 150 200 x) 0 (store w2)\<rparr>)
       (w4\<lparr>store := setCondition (\<lambda>x. id_agent x \<noteq> ''A'' \<and> heightIn 150 200 x) 0 (store w4)\<rparr>)"
    by (rule mp)
  from f2 c2 q2 b2 s24 A' n g4 st have
    "find (\<lambda>p. Some (id_process (store w2 p)) = currentProcessId (currentState (sim w2)))
       (processes (sim w2)) = Some 0 \<and>
     conditional (store w2 0) = Some c \<and>
     condition c = heightIn 150 200 \<and>
     getActiveBranch 0 ''A'' (store w2) = Some 1 \<and>
     stepsTo demoEnv w2 w4 \<and>
     getAgentState (sim w4) ''A'' =
       Inr (executed demoEnv (demoNode ''shrink'' 1)
                 (executed demoEnv (demoNode ''rideOperator'' 0)
                    (executed demoEnv (demoNode ''ticketBox'' 0) agentA))) \<and>
     \<not> heightIn 150 200 (executed demoEnv (demoNode ''shrink'' 1)
                 (executed demoEnv (demoNode ''rideOperator'' 0)
                    (executed demoEnv (demoNode ''ticketBox'' 0) agentA))) \<and>
     getActiveBranch 0 ''A'' (store w4) = Some 1 \<and>
     stepsTo demoEnv
       (w2\<lparr>store := setCondition (\<lambda>x. id_agent x \<noteq> ''A'' \<and> heightIn 150 200 x) 0 (store w2)\<rparr>)
       (w4\<lparr>store := setCondition (\<lambda>x. id_agent x \<noteq> ''A'' \<and> heightIn 150 200 x) 0 (store w4)\<rparr>)"
    by (intro conjI)
  then show ?thesis by (intro exI)
qed

section \<open>The run state during a conditional run\<close>

text \<open>
  C9. After \<^verbatim>\<open>initializeProcess\<close>, when the current process is a conditional process,
  every call of \<^verbatim>\<open>executeStep\<close> that returns leaves the run state as initialization set
  it: the cursor \<open>nodeIndex\<close> is 0 and \<open>isComplete\<close> is false after any number of calls,
  also after a call has returned false.
\<close>

theorem conditional_run_state_untouched:
  assumes "initializeProcess process w = Some w0"
    and "find (\<lambda>p. Some (id_process (store w0 p)) = currentProcessId (currentState (sim w0)))
           (processes (sim w0)) = Some P"
    and "isConditional (store w0 P)"
    and "stepsTo env w0 w'"
  shows "getSimulationState (sim w') = getSimulationState (sim w0) \<and>
         nodeIndex (getSimulationState (sim w')) = 0 \<and>
         \<not> isComplete (getSimulationState (sim w'))"
proof -
  from stepsTo_frame [OF assms(4) assms(2)] assms(3)
  have "currentState (sim w') = currentState (sim w0)" by simp
  moreover have "nodeIndex (currentState (sim w0)) = 0 \<and> \<not> isComplete (currentState (sim w0))"
    using assms(1) by (auto simp: initializeProcess_def Let_def split: option.splits)
  ultimately show ?thesis by (simp add: getSimulationState_def)
qed

theorem conditional_run_state_untouched_witness:
  "initializeProcess 0 demoWorld = Some condWorld \<and>
   find (\<lambda>p. Some (id_process (store condWorld p)) =
        currentProcessId (currentState (sim condWorld))) (processes (sim condWorld)) = Some 0 \<and>
   isConditional (store condWorld 0) \<and>
   (\<exists>w3 w4.
      stepsTo demoEnv condWorld w3 \<and>
      executeStep demoEnv w3 = Some (Inr (False, w4)) \<and>
      executeStep demoEnv w4 = Some (Inr (False, w4)) \<and>
      stepsTo demoEnv condWorld w4 \<and>
      nodeIndex (getSimulationState (sim w4)) = 0 \<and>
      \<not> isComplete (getSimulationState (sim w4)))"
proof -
  from demo_run obtain w1 w2 w3 w4 where
    e: "executeStep demoEnv condWorld = Some (Inr (True, w1))"
      "executeStep demoEnv w1 = Some (Inr (True, w2))"
      "executeStep demoEnv w2 = Some (Inr (True, w3))"
      "executeStep demoEnv w3 = Some (Inr (False, w4))"
      "executeStep demoEnv w4 = Some (Inr (False, w4))"
    by blast
  have f0: "find (\<lambda>p. Some (id_process (store condWorld p)) =
        currentProcessId (currentState (sim condWorld))) (processes (sim condWorld)) = Some 0"
    by (simp add: condWorld_def demoWorld_def demoStore_def demoProcess_def)
  have c0: "isConditional (store condWorld 0)"
    by (simp add: condWorld_def demoWorld_def demoStore_def demoProcess_def isConditional_def)
  have s3: "stepsTo demoEnv condWorld w3"
    using stepsTo.step [OF stepsTo.step [OF stepsTo.step [OF stepsTo.refl e(1)] e(2)] e(3)] .
  have s4: "stepsTo demoEnv condWorld w4"
    using stepsTo.step [OF stepsTo.step [OF s3 e(4)] e(5)] .
  from conditional_run_state_untouched [OF init_cond f0 c0 s4] s3 s4 e(4,5)
  have "stepsTo demoEnv condWorld w3 \<and>
      executeStep demoEnv w3 = Some (Inr (False, w4)) \<and>
      executeStep demoEnv w4 = Some (Inr (False, w4)) \<and>
      stepsTo demoEnv condWorld w4 \<and>
      nodeIndex (getSimulationState (sim w4)) = 0 \<and>
      \<not> isComplete (getSimulationState (sim w4))"
    by blast
  then have "\<exists>w3 w4.
      stepsTo demoEnv condWorld w3 \<and>
      executeStep demoEnv w3 = Some (Inr (False, w4)) \<and>
      executeStep demoEnv w4 = Some (Inr (False, w4)) \<and>
      stepsTo demoEnv condWorld w4 \<and>
      nodeIndex (getSimulationState (sim w4)) = 0 \<and>
      \<not> isComplete (getSimulationState (sim w4))"
    by (intro exI)
  with init_cond f0 c0 show ?thesis by (intro conjI)
qed

section \<open>A process that is already finished\<close>

lemma getAIServices_shape_fwd:
  "getAIServices r h = Some xs \<Longrightarrow> sameShape h h' \<Longrightarrow> getAIServices r h' = Some xs"
proof (induction arbitrary: rule: getAIServices.raw_induct [rotated 1, consumes 1])
  case (1 f this h xs)
  from 1(3) have n: "nodes (h' this) = nodes (h this)" by (simp add: sameShape_def)
  show ?case
  proof (cases "conditional (h this)")
    case None
    then have "conditional (h' this) = None" using sameShape_plain [OF 1(3), of this] by simp
    then show ?thesis using 1(2) None n by (simp add: getAIServices_plain)
  next
    case (Some c)
    from sameShape_conditional [OF 1(3) Some] obtain c' where
      c': "conditional (h' this) = Some c'" "trueBranch c' = trueBranch c"
        "falseBranch c' = falseBranch c" by blast
    from 1(2) Some obtain ts fs where t: "f (trueBranch c) h = Some ts"
      and e: "f (falseBranch c) h = Some fs"
      and xs: "xs = map (\<lambda>n. aiService (config_node n)) (nodes (h this)) @ ts @ fs"
      by (auto simp: bind_eq_Some_conv)
    show ?thesis
      by (subst getAIServices.simps) (simp add: c' n xs 1(1) [OF t 1(3)] 1(1) [OF e 1(3)])
  qed
qed

lemma getAIServices_shape:
  assumes "sameShape h h'"
  shows "getAIServices r h' = getAIServices r h"
proof (cases "getAIServices r h")
  case (Some xs)
  then show ?thesis using getAIServices_shape_fwd [OF Some assms] by simp
next
  case None
  show ?thesis
  proof (cases "getAIServices r h'")
    case None
    then show ?thesis using \<open>getAIServices r h = None\<close> by simp
  next
    case (Some xs)
    from getAIServices_shape_fwd [OF Some sameShape_sym [OF assms]] None show ?thesis by simp
  qed
qed

lemma conditionalLoop_done:
  assumes "conditional (h P) = Some c"
    and "\<not> currentNodeIndex (h P) < length (nodes (h P))"
    and "\<forall>a\<in>set ags. \<exists>bs. map_of (branchStates c) (id_agent a) = Some bs \<and> completed bs"
  shows "conditionalLoop env P ags h hm = Some (Inr (ags, h, hm))"
  using assms(3)
proof (induction ags)
  case Nil
  then show ?case by simp
next
  case (Cons a ags)
  then obtain bs where "map_of (branchStates c) (id_agent a) = Some bs" "completed bs" by auto
  then show ?case using assms(1,2) Cons
    by (simp add: initBranchState_def stepBranch_def)
qed

lemma foldl_update_same:
  "\<forall>(k, v)\<in>set kvs. map_of m k = Some v \<Longrightarrow>
     foldl (\<lambda>m (k, v). AList.update k v m) m kvs = m"
  by (induction kvs) (auto simp: update_triv)

lemma storeAgents_same:
  assumes "lookupAgents s ids = Inr ags"
  shows "storeAgents ids ags s = s"
proof -
  from assms have m: "map (map_of (agents s)) ids = map Some ags" by (simp add: lookupAgents_Inr)
  then have len: "length ids = length ags" by (auto dest: map_eq_imp_length_eq)
  have "\<forall>(k, v)\<in>set (zip ids ags). map_of (agents s) k = Some v"
  proof (clarify)
    fix k v assume "(k, v) \<in> set (zip ids ags)"
    then obtain i where i: "i < length ids" "ids ! i = k" "ags ! i = v"
      using len by (auto simp: in_set_zip)
    from m have "map (map_of (agents s)) ids ! i = map Some ags ! i" by simp
    with i len show "map_of (agents s) k = Some v" by simp
  qed
  then show ?thesis by (simp add: storeAgents_def foldl_update_same)
qed

lemma lookupAgents_total:
  "\<forall>k\<in>set ids. \<exists>a. map_of (agents s) k = Some a \<Longrightarrow> \<exists>ags. lookupAgents s ids = Inr ags"
  by (induction ids) (auto simp: getAgentState_def)

lemma executed_id: "id_agent (executed env node agent) = id_agent agent"
  by (simp add: executed_def applyChanges_def split: sum.splits)

lemma demo_services: "getAIServices 0 demoStore = Some [0, 0, 1, 1]"
  by (simp add: getAIServices.simps demoStore_def demoProcess_def demoNode_def)

section \<open>Initialization and the state of the process object\<close>

text \<open>
  C10. \<^verbatim>\<open>initializeProcess\<close> sets the run state of the simulation (current process id,
  snapshot of the agent ids, cursor 0, not complete, the queue) and leaves the store of
  process objects as it is, so the cursor of the process and the bindings of a
  conditional process are after initialization what they were before. Hence a
  conditional process that is initialized again without \<^verbatim>\<open>resetExecution\<close> continues
  from its old cursor and bindings: when its cursor is at the end of its nodes and every
  agent is bound with the completed flag set, as a finished run leaves them, the first
  \<^verbatim>\<open>executeStep\<close> executes no node, changes nothing and returns false.
\<close>

theorem initializeProcess_keeps_process_state:
  assumes "initializeProcess process w = Some w0"
  shows "store w0 = store w \<and>
         agents (sim w0) = agents (sim w) \<and>
         currentState (sim w0) =
           \<lparr>currentProcessId = Some (id_process (store w process)),
            activeAgents = map fst (agents (sim w)), nodeIndex = 0, isComplete = False\<rparr> \<and>
         executionQueue (sim w0) =
           map (\<lambda>agentId. (id_process (store w process), agentId, 0)) (map fst (agents (sim w))) \<and>
         (\<forall>c. conditional (store w process) = Some c \<and>
              length (nodes (store w process)) \<le> currentNodeIndex (store w process) \<and>
              (\<forall>k\<in>set (map fst (agents (sim w))).
                 \<exists>a bs. map_of (agents (sim w)) k = Some a \<and>
                        map_of (branchStates c) (id_agent a) = Some bs \<and> completed bs) \<and>
              find (\<lambda>p. Some (id_process (store w0 p)) = currentProcessId (currentState (sim w0)))
                (processes (sim w0)) = Some process \<longrightarrow>
              executeStep env w0 = Some (Inr (False, w0)))"
proof -
  from assms obtain services where
    w0: "w0 = w\<lparr>sim := (sim w)
           \<lparr>currentState := \<lparr>currentProcessId = Some (id_process (store w process)),
                activeAgents = map fst (agents (sim w)), nodeIndex = 0, isComplete = False\<rparr>,
            aiServices := foldl trackAIService (aiServices (sim w)) services,
            processes := processes (sim w) @ [process],
            executionQueue := map (\<lambda>agentId. (id_process (store w process), agentId, 0))
                (map fst (agents (sim w)))\<rparr>\<rparr>"
    by (auto simp: initializeProcess_def Let_def split: option.splits)
  have frame: "store w0 = store w" "agents (sim w0) = agents (sim w)"
    "currentState (sim w0) =
           \<lparr>currentProcessId = Some (id_process (store w process)),
            activeAgents = map fst (agents (sim w)), nodeIndex = 0, isComplete = False\<rparr>"
    "executionQueue (sim w0) =
           map (\<lambda>agentId. (id_process (store w process), agentId, 0)) (map fst (agents (sim w)))"
    by (simp_all add: w0)
  have stale: "executeStep env w0 = Some (Inr (False, w0))"
    if c: "conditional (store w process) = Some c"
      and n: "length (nodes (store w process)) \<le> currentNodeIndex (store w process)"
      and b: "\<forall>k\<in>set (map fst (agents (sim w))).
                 \<exists>a bs. map_of (agents (sim w)) k = Some a \<and>
                        map_of (branchStates c) (id_agent a) = Some bs \<and> completed bs"
      and f: "find (\<lambda>p. Some (id_process (store w0 p)) = currentProcessId (currentState (sim w0)))
                (processes (sim w0)) = Some process"
    for c
  proof -
    have "\<forall>k\<in>set (map fst (agents (sim w))). \<exists>a. map_of (agents (sim w)) k = Some a"
      using b by blast
    then have "\<exists>ags. lookupAgents (sim w) (map fst (agents (sim w))) = Inr ags"
      by (rule lookupAgents_total)
    then obtain ags where l0: "lookupAgents (sim w) (map fst (agents (sim w))) = Inr ags" ..
    then have l: "lookupAgents (sim w0) (activeAgents (currentState (sim w0))) = Inr ags"
      by (simp add: lookupAgents_Inr frame)
    then have m: "map (map_of (agents (sim w))) (map fst (agents (sim w))) = map Some ags"
      by (simp add: lookupAgents_Inr frame)
    have bound: "\<forall>a\<in>set ags. \<exists>bs. map_of (branchStates c) (id_agent a) = Some bs \<and> completed bs"
    proof
      fix a assume "a \<in> set ags"
      then have "Some a \<in> set (map (map_of (agents (sim w))) (map fst (agents (sim w))))"
        unfolding m by simp
      then obtain k where "k \<in> set (map fst (agents (sim w)))" "map_of (agents (sim w)) k = Some a"
        by (auto simp: image_iff) force
      with b show "\<exists>bs. map_of (branchStates c) (id_agent a) = Some bs \<and> completed bs"
        by fastforce
    qed
    have 1: "\<not> isComplete (currentState (sim w0))" by (simp add: frame)
    have 3: "conditional (store w0 process) = Some c" using c by (simp add: frame)
    have "conditionalLoop env process ags (store w0) False = Some (Inr (ags, store w0, False))"
      using n by (intro conditionalLoop_done [of "store w0" process c ags, OF 3 _ bound])
        (simp add: frame)
    then have 5: "executeConditionalStep env process ags (store w0) =
        Some (Inr (False, ags, store w0))"
      using n by (simp add: executeConditionalStep_def frame)
    from executeStep_conditional [OF 1 f 3 l 5] show ?thesis
      by (simp add: storeAgents_same [OF l])
  qed
  have "\<forall>c. conditional (store w process) = Some c \<and>
              length (nodes (store w process)) \<le> currentNodeIndex (store w process) \<and>
              (\<forall>k\<in>set (map fst (agents (sim w))).
                 \<exists>a bs. map_of (agents (sim w)) k = Some a \<and>
                        map_of (branchStates c) (id_agent a) = Some bs \<and> completed bs) \<and>
              find (\<lambda>p. Some (id_process (store w0 p)) = currentProcessId (currentState (sim w0)))
                (processes (sim w0)) = Some process \<longrightarrow>
              executeStep env w0 = Some (Inr (False, w0))"
  proof (intro allI impI, elim conjE)
    fix c
    assume "conditional (store w process) = Some c"
      and "length (nodes (store w process)) \<le> currentNodeIndex (store w process)"
      and "\<forall>k\<in>set (map fst (agents (sim w))).
                 \<exists>a bs. map_of (agents (sim w)) k = Some a \<and>
                        map_of (branchStates c) (id_agent a) = Some bs \<and> completed bs"
      and "find (\<lambda>p. Some (id_process (store w0 p)) = currentProcessId (currentState (sim w0)))
                (processes (sim w0)) = Some process"
    then show "executeStep env w0 = Some (Inr (False, w0))" by (rule stale)
  qed
  with frame show ?thesis by (intro conjI)
qed

theorem initializeProcess_keeps_process_state_witness:
  "\<exists>w4 w5.
     runProcess demoEnv 0 demoWorld = Some (Inr (4, w4)) \<and>
     currentNodeIndex (store w4 0) = 1 \<and>
     length (nodes (store w4 0)) \<le> currentNodeIndex (store w4 0) \<and>
     getActiveBranch 0 ''A'' (store w4) = Some 1 \<and>
     getActiveBranch 0 ''B'' (store w4) = Some 2 \<and>
     initializeProcess 0 w4 = Some w5 \<and>
     store w5 = store w4 \<and>
     agents (sim w5) = agents (sim w4) \<and>
     nodeIndex (currentState (sim w5)) = 0 \<and>
     \<not> isComplete (currentState (sim w5)) \<and>
     executeStep demoEnv w5 = Some (Inr (False, w5))"
proof -
  let ?c4 = "\<lparr>condition = heightIn 150 200, trueBranch = 1, falseBranch = 2,
             branchStates = [(''A'', \<lparr>branch = 1, completed = True\<rparr>),
                             (''B'', \<lparr>branch = 2, completed = True\<rparr>)]\<rparr>"
  from demo_run obtain w1 w2 w3 w4 where
    r: "runProcess demoEnv 0 demoWorld = Some (Inr (4, w4))"
    and c4: "conditional (store w4 0) = Some ?c4"
    and n4: "currentNodeIndex (store w4 0) = 1"
    and a4: "agents (sim w4) =
       [(''A'', executed demoEnv (demoNode ''shrink'' 1)
                 (executed demoEnv (demoNode ''rideOperator'' 0)
                    (executed demoEnv (demoNode ''ticketBox'' 0) agentA))),
        (''B'', executed demoEnv (demoNode ''exitStaff'' 1)
                 (executed demoEnv (demoNode ''ticketBox'' 0) agentB))]"
    and p4: "processes (sim w4) = [0]"
    and s4: "sameShape demoStore (store w4)"
    by blast
  have g: "getAIServices 0 (store w4) = Some [0, 0, 1, 1]"
    using getAIServices_shape [OF s4, of 0] demo_services by simp
  then obtain w5 where i: "initializeProcess 0 w4 = Some w5"
    by (simp add: initializeProcess_def Let_def)
  note t = initializeProcess_keeps_process_state [OF i, of demoEnv]
  from t have st: "store w5 = store w4" and ag: "agents (sim w5) = agents (sim w4)"
    and cs: "currentState (sim w5) =
           \<lparr>currentProcessId = Some (id_process (store w4 0)),
            activeAgents = map fst (agents (sim w4)), nodeIndex = 0, isComplete = False\<rparr>"
    by simp_all
  have n0: "nodes (store w4 0) = [demoNode ''ticketBox'' 0]"
    using s4 by (simp add: sameShape_def demoStore_def demoProcess_def)
  have len: "length (nodes (store w4 0)) \<le> currentNodeIndex (store w4 0)"
    by (simp add: n0 n4)
  have b: "\<forall>k\<in>set (map fst (agents (sim w4))).
                 \<exists>a bs. map_of (agents (sim w4)) k = Some a \<and>
                        map_of (branchStates ?c4) (id_agent a) = Some bs \<and> completed bs"
    by (simp add: a4 executed_id agentA_def agentB_def)
  have p5: "processes (sim w5) = [0, 0]"
    using i g p4 by (auto simp: initializeProcess_def Let_def)
  have f: "find (\<lambda>p. Some (id_process (store w5 p)) = currentProcessId (currentState (sim w5)))
                (processes (sim w5)) = Some 0"
    by (simp add: p5 cs st)
  from t [THEN conjunct2, THEN conjunct2, THEN conjunct2, THEN conjunct2, THEN spec, of ?c4]
    c4 len b f
  have e: "executeStep demoEnv w5 = Some (Inr (False, w5))" by blast
  have br: "getActiveBranch 0 ''A'' (store w4) = Some 1" "getActiveBranch 0 ''B'' (store w4) = Some 2"
    by (simp_all add: getActiveBranch_def c4)
  from r n4 len br i st ag cs e have
    "runProcess demoEnv 0 demoWorld = Some (Inr (4, w4)) \<and>
     currentNodeIndex (store w4 0) = 1 \<and>
     length (nodes (store w4 0)) \<le> currentNodeIndex (store w4 0) \<and>
     getActiveBranch 0 ''A'' (store w4) = Some 1 \<and>
     getActiveBranch 0 ''B'' (store w4) = Some 2 \<and>
     initializeProcess 0 w4 = Some w5 \<and>
     store w5 = store w4 \<and>
     agents (sim w5) = agents (sim w4) \<and>
     nodeIndex (currentState (sim w5)) = 0 \<and>
     \<not> isComplete (currentState (sim w5)) \<and>
     executeStep demoEnv w5 = Some (Inr (False, w5))"
    by simp
  then show ?thesis by (intro exI)
qed

section \<open>One cursor for all agents of a branch\<close>

lemma shared_step:
  assumes "conditional (h P) = Some c"
    and "\<not> currentNodeIndex (h P) < length (nodes (h P))"
    and "map_of (branchStates c) (id_agent x) = Some \<lparr>branch = T, completed = False\<rparr>"
    and "map_of (branchStates c) (id_agent y) = Some \<lparr>branch = T, completed = False\<rparr>"
    and "id_agent x \<noteq> id_agent y"
    and "T \<noteq> P"
    and "currentNodeIndex (h T) + 2 \<le> length (nodes (h T))"
  shows "\<exists>h'. executeConditionalStep env P [x, y] h =
           Some (Inr (True,
             [executed env (nodes (h T) ! currentNodeIndex (h T)) x,
              executed env (nodes (h T) ! (currentNodeIndex (h T) + 1)) y], h')) \<and>
           currentNodeIndex (h' T) = currentNodeIndex (h T) + 2"
  using assms
  by (simp add: executeConditionalStep_def initBranchState_def stepBranch_def executeAgentStep_def
      execute_executed Let_def update_conv')

lemma binding_resets:
  assumes "conditional (h P) = Some c"
    and "\<not> currentNodeIndex (h P) < length (nodes (h P))"
    and "map_of (branchStates c) (id_agent x) = Some \<lparr>branch = T, completed = False\<rparr>"
    and "map_of (branchStates c) (id_agent y) = None"
    and "(if condition c y then trueBranch c else falseBranch c) = T"
    and "conditional (h T) = None"
    and "T \<noteq> P"
    and "nodes (h T) \<noteq> []"
  shows "\<exists>h'. executeConditionalStep env P [y] h =
           Some (Inr (True, [executed env (nodes (h T) ! 0) y], h')) \<and>
           currentNodeIndex (h' T) = 1 \<and>
           getActiveBranch P (id_agent x) h' = Some T \<and>
           getActiveBranch P (id_agent y) h' = Some T"
  using assms
  by (auto simp add: executeConditionalStep_def initBranchState_def stepBranch_def executeAgentStep_def
      execute_executed Let_def update_conv' reset_plain getActiveBranch_def)

text \<open>
  C2. A call of \<^verbatim>\<open>executeAgentStep\<close> on a process whose cursor is below its node count
  advances the cursor of that process object by one, and the store it leaves does not
  depend on the agent passed. So two agents bound to the same branch object share its
  cursor: when both take a step in one call of \<^verbatim>\<open>executeConditionalStep\<close>, the second
  agent runs the node after the one the first agent ran and the cursor has advanced by
  two; and when an agent is bound to a branch that another agent is already stepping
  through, \<^verbatim>\<open>resetExecution\<close> sets the cursor back, so that the newly bound agent runs
  the first node and the cursor is 1 whatever it was before. A binding holds the branch
  reference and the completed flag and no cursor of its own.
\<close>

theorem shared_branch_cursor:
  "(currentNodeIndex (h p) < length (nodes (h p)) \<longrightarrow>
      (\<exists>agent'. executeAgentStep env p agent h =
         Inr (True, agent', h(p := (h p)\<lparr>currentNodeIndex := currentNodeIndex (h p) + 1\<rparr>)))) \<and>
   (conditional (h P) = Some c \<and>
    \<not> currentNodeIndex (h P) < length (nodes (h P)) \<and>
    map_of (branchStates c) (id_agent x) = Some \<lparr>branch = T, completed = False\<rparr> \<and>
    map_of (branchStates c) (id_agent y) = Some \<lparr>branch = T, completed = False\<rparr> \<and>
    id_agent x \<noteq> id_agent y \<and> T \<noteq> P \<and>
    currentNodeIndex (h T) + 2 \<le> length (nodes (h T)) \<longrightarrow>
      (\<exists>h'. executeConditionalStep env P [x, y] h =
           Some (Inr (True,
             [executed env (nodes (h T) ! currentNodeIndex (h T)) x,
              executed env (nodes (h T) ! (currentNodeIndex (h T) + 1)) y], h')) \<and>
           currentNodeIndex (h' T) = currentNodeIndex (h T) + 2)) \<and>
   (conditional (h P) = Some c \<and>
    \<not> currentNodeIndex (h P) < length (nodes (h P)) \<and>
    map_of (branchStates c) (id_agent x) = Some \<lparr>branch = T, completed = False\<rparr> \<and>
    map_of (branchStates c) (id_agent y) = None \<and>
    (if condition c y then trueBranch c else falseBranch c) = T \<and>
    conditional (h T) = None \<and> T \<noteq> P \<and> nodes (h T) \<noteq> [] \<longrightarrow>
      (\<exists>h'. executeConditionalStep env P [y] h =
           Some (Inr (True, [executed env (nodes (h T) ! 0) y], h')) \<and>
           currentNodeIndex (h' T) = 1 \<and>
           getActiveBranch P (id_agent x) h' = Some T \<and>
           getActiveBranch P (id_agent y) h' = Some T))"
proof (intro conjI impI)
  assume "currentNodeIndex (h p) < length (nodes (h p))"
  then show "\<exists>agent'. executeAgentStep env p agent h =
         Inr (True, agent', h(p := (h p)\<lparr>currentNodeIndex := currentNodeIndex (h p) + 1\<rparr>))"
    by (simp add: executeAgentStep_def execute_executed)
next
  assume "conditional (h P) = Some c \<and>
    \<not> currentNodeIndex (h P) < length (nodes (h P)) \<and>
    map_of (branchStates c) (id_agent x) = Some \<lparr>branch = T, completed = False\<rparr> \<and>
    map_of (branchStates c) (id_agent y) = Some \<lparr>branch = T, completed = False\<rparr> \<and>
    id_agent x \<noteq> id_agent y \<and> T \<noteq> P \<and>
    currentNodeIndex (h T) + 2 \<le> length (nodes (h T))"
  then show "\<exists>h'. executeConditionalStep env P [x, y] h =
           Some (Inr (True,
             [executed env (nodes (h T) ! currentNodeIndex (h T)) x,
              executed env (nodes (h T) ! (currentNodeIndex (h T) + 1)) y], h')) \<and>
           currentNodeIndex (h' T) = currentNodeIndex (h T) + 2"
    by (elim conjE) (rule shared_step; assumption)
next
  assume "conditional (h P) = Some c \<and>
    \<not> currentNodeIndex (h P) < length (nodes (h P)) \<and>
    map_of (branchStates c) (id_agent x) = Some \<lparr>branch = T, completed = False\<rparr> \<and>
    map_of (branchStates c) (id_agent y) = None \<and>
    (if condition c y then trueBranch c else falseBranch c) = T \<and>
    conditional (h T) = None \<and> T \<noteq> P \<and> nodes (h T) \<noteq> []"
  then show "\<exists>h'. executeConditionalStep env P [y] h =
           Some (Inr (True, [executed env (nodes (h T) ! 0) y], h')) \<and>
           currentNodeIndex (h' T) = 1 \<and>
           getActiveBranch P (id_agent x) h' = Some T \<and>
           getActiveBranch P (id_agent y) h' = Some T"
    by (elim conjE) (rule binding_resets [of h P c x T y]; assumption)
qed

theorem shared_branch_cursor_witness:
  "currentNodeIndex (demoStore 1) < length (nodes (demoStore 1)) \<and>
   (\<exists>agent'. executeAgentStep demoEnv 1 agentA demoStore =
      Inr (True, agent', demoStore(1 := (demoStore 1)\<lparr>currentNodeIndex := 1\<rparr>))) \<and>
   (\<exists>agent'. executeAgentStep demoEnv 1 agentC demoStore =
      Inr (True, agent', demoStore(1 := (demoStore 1)\<lparr>currentNodeIndex := 1\<rparr>))) \<and>
   getActiveBranch 0 ''A'' boundStore = Some 1 \<and>
   getActiveBranch 0 ''C'' boundStore = Some 1 \<and>
   currentNodeIndex (boundStore 1) = 0 \<and>
   (\<exists>h'. executeConditionalStep demoEnv 0 [agentA, agentC] boundStore =
      Some (Inr (True,
        [executed demoEnv (demoNode ''rideOperator'' 0) agentA,
         executed demoEnv (demoNode ''shrink'' 1) agentC], h')) \<and>
      currentNodeIndex (h' 1) = 2) \<and>
   getActiveBranch 0 ''A'' halfStore = Some 1 \<and>
   getActiveBranch 0 ''C'' halfStore = None \<and>
   currentNodeIndex (halfStore 1) = 1 \<and>
   (\<exists>h'. executeConditionalStep demoEnv 0 [agentC] halfStore =
      Some (Inr (True, [executed demoEnv (demoNode ''rideOperator'' 0) agentC], h')) \<and>
      currentNodeIndex (h' 1) = 1 \<and>
      getActiveBranch 0 ''A'' h' = Some 1 \<and>
      getActiveBranch 0 ''C'' h' = Some 1)"
proof -
  let ?cb = "\<lparr>condition = heightIn 150 200, trueBranch = 1, falseBranch = 2,
         branchStates = [(''A'', \<lparr>branch = 1, completed = False\<rparr>),
                         (''C'', \<lparr>branch = 1, completed = False\<rparr>)]\<rparr>"
  let ?ch = "\<lparr>condition = heightIn 150 200, trueBranch = 1, falseBranch = 2,
         branchStates = [(''A'', \<lparr>branch = 1, completed = False\<rparr>)]\<rparr>"
  have 1: "currentNodeIndex (demoStore 1) < length (nodes (demoStore 1))"
    by (simp add: demoStore_def demoProcess_def)
  have k: "currentNodeIndex (demoStore (Suc 0)) = 0"
    by (simp add: demoStore_def demoProcess_def)
  have a: "\<exists>agent'. executeAgentStep demoEnv 1 agentA demoStore =
      Inr (True, agent', demoStore(1 := (demoStore 1)\<lparr>currentNodeIndex := 1\<rparr>))"
    "\<exists>agent'. executeAgentStep demoEnv 1 agentC demoStore =
      Inr (True, agent', demoStore(1 := (demoStore 1)\<lparr>currentNodeIndex := 1\<rparr>))"
    using shared_branch_cursor [where h = demoStore and p = 1 and env = demoEnv and agent = agentA,
        THEN conjunct1, THEN mp, OF 1]
      shared_branch_cursor [where h = demoStore and p = 1 and env = demoEnv and agent = agentC,
        THEN conjunct1, THEN mp, OF 1]
    by (simp_all add: k)
  have b: "conditional (boundStore 0) = Some ?cb \<and>
    \<not> currentNodeIndex (boundStore 0) < length (nodes (boundStore 0)) \<and>
    map_of (branchStates ?cb) (id_agent agentA) = Some \<lparr>branch = 1, completed = False\<rparr> \<and>
    map_of (branchStates ?cb) (id_agent agentC) = Some \<lparr>branch = 1, completed = False\<rparr> \<and>
    id_agent agentA \<noteq> id_agent agentC \<and> (1::nat) \<noteq> 0 \<and>
    currentNodeIndex (boundStore 1) + 2 \<le> length (nodes (boundStore 1))"
    by (simp add: boundStore_def demoStore_def demoProcess_def agentA_def agentC_def)
  have ob: "nodes (boundStore (Suc 0)) = [demoNode ''rideOperator'' 0, demoNode ''shrink'' 1]"
    "currentNodeIndex (boundStore (Suc 0)) = 0"
    "nodes (halfStore (Suc 0)) = [demoNode ''rideOperator'' 0, demoNode ''shrink'' 1]"
    by (simp_all add: boundStore_def halfStore_def demoStore_def demoProcess_def)
  from shared_branch_cursor [where h = boundStore and P = 0 and c = ?cb and x = agentA
      and y = agentC and T = 1 and env = demoEnv, THEN conjunct2, THEN conjunct1, THEN mp, OF b]
  have s: "\<exists>h'. executeConditionalStep demoEnv 0 [agentA, agentC] boundStore =
      Some (Inr (True,
        [executed demoEnv (demoNode ''rideOperator'' 0) agentA,
         executed demoEnv (demoNode ''shrink'' 1) agentC], h')) \<and>
      currentNodeIndex (h' 1) = 2"
    by (simp add: ob numeral_2_eq_2)
  have c: "conditional (halfStore 0) = Some ?ch \<and>
    \<not> currentNodeIndex (halfStore 0) < length (nodes (halfStore 0)) \<and>
    map_of (branchStates ?ch) (id_agent agentA) = Some \<lparr>branch = 1, completed = False\<rparr> \<and>
    map_of (branchStates ?ch) (id_agent agentC) = None \<and>
    (if condition ?ch agentC then trueBranch ?ch else falseBranch ?ch) = 1 \<and>
    conditional (halfStore 1) = None \<and> (1::nat) \<noteq> 0 \<and> nodes (halfStore 1) \<noteq> []"
    by (simp add: halfStore_def demoStore_def demoProcess_def agentA_def agentC_def heightIn_def)
  from shared_branch_cursor [where h = halfStore and P = 0 and c = ?ch and x = agentA
      and y = agentC and T = 1 and env = demoEnv, THEN conjunct2, THEN conjunct2, THEN mp, OF c]
  have r: "\<exists>h'. executeConditionalStep demoEnv 0 [agentC] halfStore =
      Some (Inr (True, [executed demoEnv (demoNode ''rideOperator'' 0) agentC], h')) \<and>
      currentNodeIndex (h' 1) = 1 \<and>
      getActiveBranch 0 ''A'' h' = Some 1 \<and>
      getActiveBranch 0 ''C'' h' = Some 1"
    by (simp add: ob agentA_def agentC_def)
  have o: "getActiveBranch 0 ''A'' boundStore = Some 1" "getActiveBranch 0 ''C'' boundStore = Some 1"
    "currentNodeIndex (boundStore 1) = 0"
    "getActiveBranch 0 ''A'' halfStore = Some 1" "getActiveBranch 0 ''C'' halfStore = None"
    "currentNodeIndex (halfStore 1) = 1"
    by (simp_all add: getActiveBranch_def boundStore_def halfStore_def demoStore_def demoProcess_def)
  from 1 a s r o show ?thesis by (intro conjI)
qed

section \<open>Runs of a linear process\<close>

lemma lookupAgents_storeAgents:
  assumes "distinct ids" "length ags = length ids"
  shows "lookupAgents (storeAgents ids ags s) ids = Inr ags"
proof -
  have "map (map_of (agents (storeAgents ids ags s))) ids = map Some ags"
    using assms by (auto simp: list_eq_iff_nth_eq map_of_storeAgents)
  then show ?thesis by (simp add: lookupAgents_Inr)
qed

text \<open>The rounds of a linear process from cursor \<open>i\<close> to the end.\<close>

lemma linear_run:
  assumes "find (\<lambda>p. Some (id_process (store w p)) = currentProcessId (currentState (sim w)))
           (processes (sim w)) = Some p"
    and "conditional (store w p) = None"
    and "\<not> isComplete (currentState (sim w))"
    and "nodeIndex (currentState (sim w)) < length (nodes (store w p))"
    and "distinct (activeAgents (currentState (sim w)))"
    and "lookupAgents (sim w) (activeAgents (currentState (sim w))) = Inr ags"
  shows "\<exists>w'. runLoop env k w =
           Some (Inr (k + (length (nodes (store w p)) - nodeIndex (currentState (sim w))), w')) \<and>
         store w' = store w \<and>
         nodeIndex (currentState (sim w')) = length (nodes (store w p)) \<and>
         isComplete (currentState (sim w')) \<and>
         lookupAgents (sim w') (activeAgents (currentState (sim w))) =
           Inr (map (\<lambda>a. fold (executed env)
                  (drop (nodeIndex (currentState (sim w))) (nodes (store w p))) a) ags)"
  using assms
proof (induction "length (nodes (store w p)) - nodeIndex (currentState (sim w))"
    arbitrary: w ags k)
  case 0
  then show ?case by simp
next
  case (Suc n)
  let ?i = "nodeIndex (currentState (sim w))"
  let ?ids = "activeAgents (currentState (sim w))"
  let ?node = "nodes (store w p) ! ?i"
  let ?ags1 = "map (executed env ?node) ags"
  define w1 where "w1 = \<lparr>store = store w,
       sim = (storeAgents ?ids ?ags1 (sim w))
         \<lparr>currentState := (currentState (sim w))
            \<lparr>nodeIndex := ?i + 1,
             isComplete := length (nodes (store w p)) \<le> ?i + 1\<rparr>\<rparr>\<rparr>"
  have node: "nth_opt (nodes (store w p)) ?i = Some ?node"
    using Suc.prems(4) by (simp add: nth_opt_def)
  have e: "executeStep env w = Some (Inr (?i + 1 < length (nodes (store w p)), w1))"
    unfolding w1_def by (rule executeStep_linear [OF Suc.prems(3) Suc.prems(1,2) node Suc.prems(6)])
  have len: "length ags = length ?ids" using Suc.prems(6) by (rule lookupAgents_length)
  have l1: "lookupAgents (sim w1) ?ids = Inr ?ags1"
    using lookupAgents_storeAgents [OF Suc.prems(5), of ?ags1 "sim w"] len
    by (simp add: w1_def lookupAgents_Inr)
  have dr: "drop ?i (nodes (store w p)) = ?node # drop (?i + 1) (nodes (store w p))"
    using Suc.prems(4) by (simp add: Cons_nth_drop_Suc)
  show ?case
  proof (cases "?i + 1 < length (nodes (store w p))")
    case True
    have "\<exists>w'. runLoop env (k + 1) w1 =
           Some (Inr (k + 1 + (length (nodes (store w1 p)) - nodeIndex (currentState (sim w1))), w')) \<and>
         store w' = store w1 \<and>
         nodeIndex (currentState (sim w')) = length (nodes (store w1 p)) \<and>
         isComplete (currentState (sim w')) \<and>
         lookupAgents (sim w') (activeAgents (currentState (sim w1))) =
           Inr (map (\<lambda>a. fold (executed env)
                  (drop (nodeIndex (currentState (sim w1))) (nodes (store w1 p))) a) ?ags1)"
    proof (rule Suc.hyps(1))
      show "n = length (nodes (store w1 p)) - nodeIndex (currentState (sim w1))"
        using Suc.hyps(2) by (simp add: w1_def)
      show "find (\<lambda>p. Some (id_process (store w1 p)) = currentProcessId (currentState (sim w1)))
           (processes (sim w1)) = Some p"
        using Suc.prems(1) by (simp add: w1_def storeAgents_def)
      show "conditional (store w1 p) = None" using Suc.prems(2) by (simp add: w1_def)
      show "\<not> isComplete (currentState (sim w1))" using True by (simp add: w1_def)
      show "nodeIndex (currentState (sim w1)) < length (nodes (store w1 p))"
        using True by (simp add: w1_def)
      show "distinct (activeAgents (currentState (sim w1)))"
        using Suc.prems(5) by (simp add: w1_def)
      show "lookupAgents (sim w1) (activeAgents (currentState (sim w1))) = Inr ?ags1"
        using l1 by (simp add: w1_def)
    qed
    then obtain w' where r: "runLoop env (k + 1) w1 =
           Some (Inr (k + 1 + (length (nodes (store w p)) - (?i + 1)), w'))"
      and o: "store w' = store w" "nodeIndex (currentState (sim w')) = length (nodes (store w p))"
        "isComplete (currentState (sim w'))"
        "lookupAgents (sim w') ?ids =
           Inr (map (\<lambda>a. fold (executed env) (drop (?i + 1) (nodes (store w p))) a) ?ags1)"
      by (auto simp: w1_def)
    have "runLoop env k w = Some (Inr (k + (length (nodes (store w p)) - ?i), w'))"
      using True r by (subst runLoop.simps) (simp add: e)
    then show ?thesis using o by (simp add: dr comp_def)
  next
    case False
    then have last: "?i + 1 = length (nodes (store w p))" using Suc.prems(4) by simp
    have "runLoop env k w = Some (Inr (k + 1, w1))"
      using False by (subst runLoop.simps) (simp add: e)
    moreover have "drop (?i + 1) (nodes (store w p)) = []" using last by simp
    ultimately show ?thesis using last l1
      by (intro exI [of _ w1]) (simp add: w1_def dr)
  qed
qed

lemma init_empty:
  "initializeProcess 4 demoWorld =
     Some (demoWorld\<lparr>sim := demoSim
       \<lparr>currentState :=
          \<lparr>currentProcessId = Some ''empty'', activeAgents = [''A'', ''B''],
           nodeIndex = 0, isComplete = False\<rparr>,
        aiServices := [],
        processes := [4],
        executionQueue := [(''empty'', ''A'', 0), (''empty'', ''B'', 0)]\<rparr>\<rparr>)"
  by (simp add: initializeProcess_def getAIServices.simps demoWorld_def demoStore_def
      demoProcess_def demoSim_def addAgent_def newSimulation_def Let_def)

lemma fold_executed_history:
  "\<forall>node\<in>set ns. \<forall>agent. \<exists>chs. handler env node agent = Inr chs \<Longrightarrow>
     length (history (fold (executed env) ns a)) = length (history a) + length ns"
proof (induction ns arbitrary: a)
  case Nil
  then show ?case by simp
next
  case (Cons n ns)
  then obtain chs where "handler env n a = Inr chs" by fastforce
  then have "length (history (executed env n a)) = length (history a) + 1"
    by (rule executed_history)
  then show ?case using Cons by simp
qed

text \<open>
  A linear process with at least one node, run from initialization on agents with
  distinct ids and without capability failures: \<^verbatim>\<open>runProcess\<close> makes as many calls of
  \<^verbatim>\<open>executeStep\<close> as there are nodes, ends complete with the cursor at the node count,
  and every agent has that many history entries more.
\<close>

lemma linear_run_complete:
  assumes plain: "conditional (store w p) = None"
    and nonempty: "nodes (store w p) \<noteq> []"
    and cur: "find (\<lambda>q. id_process (store w q) = id_process (store w p))
                (processes (sim w) @ [p]) = Some p"
    and dist: "distinct (map fst (agents (sim w)))"
    and ok: "\<forall>node\<in>set (nodes (store w p)). \<forall>agent. \<exists>chs. handler env node agent = Inr chs"
  shows "\<exists>w' ags'. runProcess env p w = Some (Inr (length (nodes (store w p)), w')) \<and>
           nodeIndex (currentState (sim w')) = length (nodes (store w p)) \<and>
           isComplete (currentState (sim w')) \<and>
           lookupAgents (sim w') (map fst (agents (sim w))) = Inr ags' \<and>
           map (\<lambda>a. length (history a)) ags' =
             map (\<lambda>(k, a). length (history a) + length (nodes (store w p))) (agents (sim w))"
proof -
  let ?ids = "map fst (agents (sim w))"
  have g: "getAIServices p (store w) =
      Some (map (\<lambda>n. aiService (config_node n)) (nodes (store w p)))"
    using plain by (rule getAIServices_plain)
  define w0 where "w0 = w\<lparr>sim := (sim w)
       \<lparr>currentState := \<lparr>currentProcessId = Some (id_process (store w p)),
            activeAgents = ?ids, nodeIndex = 0, isComplete = False\<rparr>,
        aiServices := foldl trackAIService (aiServices (sim w))
            (map (\<lambda>n. aiService (config_node n)) (nodes (store w p))),
        processes := processes (sim w) @ [p],
        executionQueue := map (\<lambda>agentId. (id_process (store w p), agentId, 0)) ?ids\<rparr>\<rparr>"
  have i: "initializeProcess p w = Some w0"
    by (simp add: initializeProcess_def Let_def g w0_def)
  have "lookupAgents (sim w) ?ids = Inr (map snd (agents (sim w)))"
    using dist by (simp add: lookupAgents_Inr)
  then have l: "lookupAgents (sim w0) (activeAgents (currentState (sim w0))) =
      Inr (map snd (agents (sim w)))"
    by (simp add: w0_def lookupAgents_Inr)
  have "\<exists>w'. runLoop env 0 w0 =
           Some (Inr (0 + (length (nodes (store w0 p)) - nodeIndex (currentState (sim w0))), w')) \<and>
         store w' = store w0 \<and>
         nodeIndex (currentState (sim w')) = length (nodes (store w0 p)) \<and>
         isComplete (currentState (sim w')) \<and>
         lookupAgents (sim w') (activeAgents (currentState (sim w0))) =
           Inr (map (\<lambda>a. fold (executed env)
                  (drop (nodeIndex (currentState (sim w0))) (nodes (store w0 p))) a)
                  (map snd (agents (sim w))))"
  proof (rule linear_run [OF _ _ _ _ _ l])
    show "find (\<lambda>p. Some (id_process (store w0 p)) = currentProcessId (currentState (sim w0)))
           (processes (sim w0)) = Some p"
      using cur by (simp add: w0_def)
    show "conditional (store w0 p) = None" using plain by (simp add: w0_def)
    show "\<not> isComplete (currentState (sim w0))" by (simp add: w0_def)
    show "nodeIndex (currentState (sim w0)) < length (nodes (store w0 p))"
      using nonempty by (simp add: w0_def)
    show "distinct (activeAgents (currentState (sim w0)))" using dist by (simp add: w0_def)
  qed
  then obtain w' where r: "runLoop env 0 w0 = Some (Inr (length (nodes (store w p)), w'))"
    and o: "nodeIndex (currentState (sim w')) = length (nodes (store w p))"
      "isComplete (currentState (sim w'))"
      "lookupAgents (sim w') ?ids =
         Inr (map (\<lambda>a. fold (executed env) (nodes (store w p)) a) (map snd (agents (sim w))))"
    by (auto simp: w0_def)
  have "map (\<lambda>a. length (history a))
          (map (\<lambda>a. fold (executed env) (nodes (store w p)) a) (map snd (agents (sim w)))) =
        map (\<lambda>(k, a). length (history a) + length (nodes (store w p))) (agents (sim w))"
    by (simp add: fold_executed_history [OF ok] case_prod_unfold)
  with r o i show ?thesis by (simp add: runProcess_def)
qed

text \<open>
  Along such a run, after initialization and after every call of \<^verbatim>\<open>executeStep\<close> that
  returns, the run is marked complete exactly when the cursor equals the node count.
\<close>

lemma linear_flag_step:
  assumes e: "executeStep env w = Some (Inr (hasMore, w'))"
    and f: "find (\<lambda>p. Some (id_process (store w p)) = currentProcessId (currentState (sim w)))
           (processes (sim w)) = Some p"
    and plain: "conditional (store w p) = None"
    and le: "nodeIndex (currentState (sim w)) \<le> length (nodes (store w p))"
    and iff: "isComplete (currentState (sim w)) \<longleftrightarrow>
           nodeIndex (currentState (sim w)) = length (nodes (store w p))"
  shows "store w' = store w \<and>
         nodeIndex (currentState (sim w')) \<le> length (nodes (store w p)) \<and>
         (isComplete (currentState (sim w')) \<longleftrightarrow>
           nodeIndex (currentState (sim w')) = length (nodes (store w p))) \<and>
         hasMore = (\<not> isComplete (currentState (sim w')))"
proof (cases "isComplete (currentState (sim w))")
  case True
  then show ?thesis using e le iff by (auto simp: executeStep_def Let_def)
next
  case False
  then have "nodeIndex (currentState (sim w)) < length (nodes (store w p))"
    using le iff by simp
  then show ?thesis using e f plain False
    by (auto simp: executeStep_def Let_def isConditional_def storeAgents_def
        split: sum.splits if_splits)
qed

lemma linear_flag_run:
  assumes i: "initializeProcess p w = Some w0"
    and plain: "conditional (store w p) = None"
    and nonempty: "nodes (store w p) \<noteq> []"
    and cur: "find (\<lambda>q. id_process (store w q) = id_process (store w p))
                (processes (sim w) @ [p]) = Some p"
    and s: "stepsTo env w0 w'"
  shows "isComplete (currentState (sim w')) \<longleftrightarrow>
           nodeIndex (currentState (sim w')) = length (nodes (store w p))"
proof -
  from i have w0: "store w0 = store w" "nodeIndex (currentState (sim w0)) = 0"
    "\<not> isComplete (currentState (sim w0))"
    "currentProcessId (currentState (sim w0)) = Some (id_process (store w p))"
    "processes (sim w0) = processes (sim w) @ [p]"
    by (auto simp: initializeProcess_def Let_def split: option.splits)
  have f0: "find (\<lambda>p. Some (id_process (store w0 p)) = currentProcessId (currentState (sim w0)))
           (processes (sim w0)) = Some p"
    using cur by (simp add: w0)
  from s have "store w' = store w \<and>
      nodeIndex (currentState (sim w')) \<le> length (nodes (store w p)) \<and>
      (isComplete (currentState (sim w')) \<longleftrightarrow>
         nodeIndex (currentState (sim w')) = length (nodes (store w p)))"
  proof (induction rule: stepsTo.induct)
    case refl
    then show ?case using w0 nonempty by simp
  next
    case (step w1 hasMore w2)
    from stepsTo_frame [OF step.hyps(1) f0] have
      f1: "find (\<lambda>p. Some (id_process (store w1 p)) = currentProcessId (currentState (sim w1)))
           (processes (sim w1)) = Some p" by simp
    from step.IH have st: "store w1 = store w" by simp
    from linear_flag_step [OF step.hyps(2) f1] step.IH plain show ?case
      by (simp add: st)
  qed
  then show ?thesis by simp
qed

text \<open>
  C3. For a linear process with at least one node the claim holds: every agent gets as
  many history entries as the process has nodes, and the run is marked complete exactly
  when the cursor equals the node count (\<open>linear_run_complete\<close>, \<open>linear_flag_run\<close>).
  On a linear process without nodes the code departs from it. With the agents A and
  B registered, the first \<^verbatim>\<open>executeStep\<close> reads \<^verbatim>\<open>nodes[0]\<close>, which is undefined, and
  throws a \<^verbatim>\<open>TypeError\<close> when it calls \<^verbatim>\<open>execute\<close> on it, so \<^verbatim>\<open>runProcess\<close> ends with
  an error instead of completing. With no agent registered the step does not throw; it
  moves the cursor to 1, past the node count 0, and only then marks the run complete.
\<close>

theorem empty_linear_process_throws:
  "conditional (store demoWorld 4) = None \<and> nodes (store demoWorld 4) = [] \<and>
   map fst (agents (sim demoWorld)) = [''A'', ''B''] \<and>
   runProcess demoEnv 4 demoWorld = Some (Inl TypeError) \<and>
   (\<exists>w'. runProcess demoEnv 4 \<lparr>store = demoStore, sim = newSimulation demoConfig\<rparr> =
            Some (Inr (1, w')) \<and>
          nodeIndex (currentState (sim w')) = 1 \<and> isComplete (currentState (sim w')))"
proof -
  have a: "conditional (store demoWorld 4) = None" "nodes (store demoWorld 4) = []"
    "map fst (agents (sim demoWorld)) = [''A'', ''B'']"
    by (simp_all add: demoWorld_def demoStore_def demoProcess_def demoSim_def addAgent_def
        newSimulation_def)
  have b: "runProcess demoEnv 4 demoWorld = Some (Inl TypeError)"
    by (simp add: runProcess_def init_empty runLoop.simps executeStep_def Let_def isConditional_def
        nth_opt_def getAgentState_def)
       (simp add: demoWorld_def demoStore_def demoProcess_def demoSim_def addAgent_def
        newSimulation_def getAgentState_def)
  have c: "\<exists>w'. runProcess demoEnv 4 \<lparr>store = demoStore, sim = newSimulation demoConfig\<rparr> =
            Some (Inr (1, w')) \<and>
          nodeIndex (currentState (sim w')) = 1 \<and> isComplete (currentState (sim w'))"
    by (simp add: runProcess_def initializeProcess_def getAIServices.simps runLoop.simps
        executeStep_def Let_def isConditional_def nth_opt_def storeAgents_def newSimulation_def
        demoStore_def demoProcess_def)
  from a b c show ?thesis by (intro conjI)
qed

end
